theory Spec2Isabelle
  imports Complex_Main
begin

unbundle bit_operations_syntax

section \<open>Machine integers\<close>

text \<open>
  The template parameters \<open>WIDTH\<close>, \<open>PLACE\<close>, \<open>LSB_PLACE\<close>, ... of the C++ source are
  ordinary arguments here, of type \<^typ>\<open>int\<close>.  A significand is kept as an \<^typ>\<open>int\<close>; every
  place where the source stores or computes it in a machine type is written out as a
  conversion to that type: \<open>to_signed n\<close> is the value of an \<open>n\<close>-bit two's complement
  integer, \<open>to_unsigned n\<close> that of an \<open>n\<close>-bit unsigned one.  Signed arithmetic that leaves the
  range of its type therefore wraps around.
\<close>

definition to_signed :: "nat \<Rightarrow> int \<Rightarrow> int" where
  "to_signed n x = signed_take_bit (n - 1) x"

definition to_unsigned :: "nat \<Rightarrow> int \<Rightarrow> int" where
  "to_unsigned n x = take_bit n x"

section \<open>FixedPoint/significand.h\<close>

text \<open>
  \<open>significand_t<WIDTH>\<close> is \<open>std::int_fast64_t\<close> when \<open>WIDTH > 32\<close> and
  \<open>std::int_fast32_t\<close> otherwise; \<open>u_significand_t<WIDTH>\<close> is its unsigned counterpart.
  \<open>sig_bits\<close> is the number of bits of that type.

  Modelled from the spec: the widths of \<open>std::int_fast32_t\<close> and \<open>std::int_fast64_t\<close>, which
  the C++ implementation chooses and the repository does not fix.  The specification's data
  model stores a significand in "32-bit if width \<le> 32, else 64-bit".
\<close>

definition sig_bits :: "int \<Rightarrow> nat" where
  "sig_bits w = (if w > 32 then 64 else 32)"

text \<open>
  \<open>std::numeric_limits<double>\<close> of IEEE-754 binary64: \<open>digits = 53\<close>,
  \<open>min_exponent = -1021\<close>, \<open>max_exponent = 1024\<close>.
\<close>

definition MIN_BIT_WIDTH :: int where
  "MIN_BIT_WIDTH = 2"

definition MAX_BIT_WIDTH :: int where
  "MAX_BIT_WIDTH = 53 + 1"

text \<open>
  \<open>MAX_SIGNIFICAND_VALUE<WIDTH> = (static_cast<u_significand_t<WIDTH>>(1) << (WIDTH - 1)) - 1\<close>,
  computed in the unsigned type and stored in the signed one.  The shift has a meaning in
  C++ only for a count from 0 up to the bit width of the type minus one, which is what
  \<open>MAX_SIGNIFICAND_VALUE_ok\<close> says; for any other \<open>WIDTH\<close> the constant expression is rejected
  by the compiler.
\<close>

definition MAX_SIGNIFICAND_VALUE :: "int \<Rightarrow> int" where
  "MAX_SIGNIFICAND_VALUE w =
     to_signed (sig_bits w)
       (to_unsigned (sig_bits w) (to_unsigned (sig_bits w) (push_bit (nat (w - 1)) 1) - 1))"

definition MAX_SIGNIFICAND_VALUE_ok :: "int \<Rightarrow> bool" where
  "MAX_SIGNIFICAND_VALUE_ok w = (0 \<le> w - 1 \<and> w - 1 < int (sig_bits w))"

definition MIN_SIGNIFICAND_VALUE :: "int \<Rightarrow> int" where
  "MIN_SIGNIFICAND_VALUE w = to_signed (sig_bits w) (- MAX_SIGNIFICAND_VALUE w)"

section \<open>FixedPoint/limit.h\<close>

definition MIN_LSB_PLACE :: int where
  "MIN_LSB_PLACE = - 1021 - 1"

definition MAX_MSB_PLACE :: int where
  "MAX_MSB_PLACE = 1024"

text \<open>
  \<open>clamp<WIDTH>(significand_t<WIDTH> i)\<close>.  The argument arrives converted to
  \<open>significand_t<WIDTH>\<close>; the two static assertions of the function are \<open>clamp_ok\<close>.
\<close>

definition clamp_ok :: "int \<Rightarrow> bool" where
  "clamp_ok w = (MIN_BIT_WIDTH \<le> w \<and> w \<le> MAX_BIT_WIDTH)"

definition clamp :: "int \<Rightarrow> int \<Rightarrow> int" where
  "clamp w v =
     (let i = to_signed (sig_bits w) v in
      if i > MAX_SIGNIFICAND_VALUE w then MAX_SIGNIFICAND_VALUE w
      else if i < MIN_SIGNIFICAND_VALUE w then MIN_SIGNIFICAND_VALUE w
      else i)"

text \<open>
  \<open>to_significand<WIDTH, PLACE>(double a)\<close> returns
  \<open>clamp<WIDTH>(std::nearbyint(a * std::exp2(-PLACE)))\<close>.  For a finite \<open>a\<close> the value of
  \<open>std::nearbyint(a * std::exp2(-PLACE))\<close> is a whole number; it is the argument \<open>r\<close> here, and
  the floating-point computation of it is left out.  \<open>clamp\<close> takes a \<open>significand_t<WIDTH>\<close>,
  so \<open>r\<close> is converted from \<open>double\<close> to that type before it is compared with anything.
  C++ defines this conversion only for an \<open>r\<close> in the range of the type.  For any other \<open>r\<close>
  the program still returns a value, and the model takes the one that the conversion
  instruction of x86-64 gives, the minimum of the type.
\<close>

definition to_significand :: "int \<Rightarrow> int \<Rightarrow> int" where
  "to_significand w r =
     clamp w (if - (2 ^ (sig_bits w - 1)) \<le> r \<and> r < 2 ^ (sig_bits w - 1) then r
              else - (2 ^ (sig_bits w - 1)))"

text \<open>
  Modelled from the spec: \<open>clamp_significand<WIDTH>\<close>, which \<open>reduce_dynamic_range\<close> and
  \<open>set_significand\<close> of FixedPoint.h call and which no file under src/ defines.  Section 4.1
  of the specification: "if value exceeds max(width) = 2^(width-1)-1, return max(width); if
  below -max(width), return -max(width); else return value unchanged".  Its argument is of
  any arithmetic type, so the value is not converted before the comparison.
\<close>

definition clamp_significand :: "int \<Rightarrow> int \<Rightarrow> int" where
  "clamp_significand w v =
     (if v > MAX_SIGNIFICAND_VALUE w then MAX_SIGNIFICAND_VALUE w
      else if v < - MAX_SIGNIFICAND_VALUE w then - MAX_SIGNIFICAND_VALUE w
      else v)"

section \<open>FixedPoint.h: the class and its result types\<close>

text \<open>
  A value of class \<open>FixedPoint<WIDTH, PLACE>\<close>: the two template parameters and the one data
  member.
\<close>

record fixed =
  width :: int
  place :: int
  significand :: int

text \<open>The four static assertions at the head of the class.\<close>

definition valid_type :: "int \<Rightarrow> int \<Rightarrow> bool" where
  "valid_type w p =
     (MIN_BIT_WIDTH \<le> w \<and> w \<le> MAX_BIT_WIDTH \<and> MIN_LSB_PLACE \<le> p \<and> w + p \<le> MAX_MSB_PLACE)"

text \<open>
  The range a significand of width \<open>w\<close> may take, and a well-formed instance: one of a type
  that passes the static assertions and whose significand is in that range.
\<close>

definition in_range :: "int \<Rightarrow> int \<Rightarrow> bool" where
  "in_range w s = (- (2 ^ nat (w - 1) - 1) \<le> s \<and> s \<le> 2 ^ nat (w - 1) - 1)"

definition legal :: "fixed \<Rightarrow> bool" where
  "legal x = (valid_type (width x) (place x) \<and> in_range (width x) (significand x))"

text \<open>
  The value an instance stands for.  \<open>operator double()\<close> returns
  \<open>std::ldexp(significand, PLACE)\<close>, which is this number.
\<close>

definition real_value :: "fixed \<Rightarrow> real" where
  "real_value x = of_int (significand x) * 2 powi (place x)"

definition superset_width :: "int \<Rightarrow> int \<Rightarrow> int \<Rightarrow> int \<Rightarrow> int \<Rightarrow> int" where
  "superset_width w p width2 place2 extra_width =
     max (w + p) (width2 + place2) - min p place2 + extra_width"

definition superset_t :: "int \<Rightarrow> int \<Rightarrow> int \<Rightarrow> int \<Rightarrow> int \<Rightarrow> int \<times> int" where
  "superset_t w p width2 place2 extra_width =
     (superset_width w p width2 place2 extra_width, min p place2)"

definition addition_result_t :: "int \<Rightarrow> int \<Rightarrow> int \<Rightarrow> int \<Rightarrow> int \<times> int" where
  "addition_result_t w p width2 place2 =
     (superset_width w p width2 place2
        (if p \<ge> width2 + place2 - 1 \<or> place2 \<ge> w + p - 1 then 0 else 1),
      min p place2)"

text \<open>
  The result type of addition and subtraction in the words of the specification
  (section 4.3), to be compared with \<open>addition_result_t\<close>.
\<close>

definition spec_extra :: "int \<Rightarrow> int \<Rightarrow> int \<Rightarrow> int \<Rightarrow> int" where
  "spec_extra widthA placeA widthB placeB =
     (if placeA \<ge> widthB + placeB - 1 \<or> placeB \<ge> widthA + placeA - 1 then 0 else 1)"

definition spec_addition_width :: "int \<Rightarrow> int \<Rightarrow> int \<Rightarrow> int \<Rightarrow> int" where
  "spec_addition_width widthA placeA widthB placeB =
     max (widthA + placeA) (widthB + placeB) - min placeA placeB
       + spec_extra widthA placeA widthB placeB"

definition spec_addition_place :: "int \<Rightarrow> int \<Rightarrow> int \<Rightarrow> int \<Rightarrow> int" where
  "spec_addition_place widthA placeA widthB placeB = min placeA placeB"

section \<open>FixedPoint.h: constructors, conversions and arithmetic\<close>

text \<open>Default constructor.\<close>

definition FixedPoint_zero :: "int \<Rightarrow> int \<Rightarrow> fixed" where
  "FixedPoint_zero w p = \<lparr>width = w, place = p, significand = 0\<rparr>"

text \<open>
  The converting constructor from a narrower \<open>FixedPoint<WIDTH_SRC, PLACE_SRC>\<close>; \<open>narrower\<close>
  is its static assertion.  The product is computed in \<open>significand_t<WIDTH>\<close>.
\<close>

definition narrower :: "int \<Rightarrow> int \<Rightarrow> int \<Rightarrow> int \<Rightarrow> bool" where
  "narrower w p width_src place_src = (p \<le> place_src \<and> w + p \<ge> width_src + place_src)"

definition FixedPoint_from :: "int \<Rightarrow> int \<Rightarrow> fixed \<Rightarrow> fixed" where
  "FixedPoint_from w p src =
     \<lparr>width = w, place = p,
      significand =
        to_signed (sig_bits w)
          (to_signed (sig_bits w) (significand src)
           * to_signed (sig_bits w) (push_bit (nat (place src - p)) 1))\<rparr>"

definition reduce_dynamic_range :: "int \<Rightarrow> fixed \<Rightarrow> fixed" where
  "reduce_dynamic_range dest_width x =
     \<lparr>width = dest_width, place = place x,
      significand = clamp_significand dest_width (significand x)\<rparr>"

text \<open>
  Construction from a \<open>double\<close>: the significand is \<open>to_significand<WIDTH, PLACE>(src)\<close>, and
  \<open>r\<close> is again the value of \<open>std::nearbyint(src * std::exp2(-PLACE))\<close>.
\<close>

definition FixedPoint_of_rounded :: "int \<Rightarrow> int \<Rightarrow> int \<Rightarrow> fixed" where
  "FixedPoint_of_rounded w p r = \<lparr>width = w, place = p, significand = to_significand w r\<rparr>"

definition to_bool :: "fixed \<Rightarrow> bool" where
  "to_bool x = (significand x \<noteq> 0)"

definition operator_neg :: "fixed \<Rightarrow> fixed" where
  "operator_neg x =
     \<lparr>width = width x, place = place x,
      significand = to_signed (sig_bits (width x)) (- significand x)\<rparr>"

definition operator_plus :: "fixed \<Rightarrow> fixed \<Rightarrow> fixed" where
  "operator_plus x op2 =
     (let (rw, rp) = addition_result_t (width x) (place x) (width op2) (place op2);
          result = FixedPoint_from rw rp x;
          op2_ext = FixedPoint_from rw rp op2
      in result\<lparr>significand :=
                  to_signed (sig_bits rw) (significand result + significand op2_ext)\<rparr>)"

definition operator_minus :: "fixed \<Rightarrow> fixed \<Rightarrow> fixed" where
  "operator_minus x op2 =
     (let (rw, rp) = addition_result_t (width x) (place x) (width op2) (place op2);
          result = FixedPoint_from rw rp x;
          op2_ext = FixedPoint_from rw rp op2
      in result\<lparr>significand :=
                  to_signed (sig_bits rw) (significand result - significand op2_ext)\<rparr>)"

definition operator_times :: "fixed \<Rightarrow> fixed \<Rightarrow> fixed" where
  "operator_times x op2 =
     (let rw = width x + width op2 - 1;
          rp = place x + place op2;
          significand1 = to_signed (sig_bits rw) (significand x);
          significand2 = to_signed (sig_bits rw) (significand op2)
      in \<lparr>width = rw, place = rp,
          significand = to_signed (sig_bits rw) (significand1 * significand2)\<rparr>)"

definition exp2 :: "int \<Rightarrow> fixed \<Rightarrow> fixed" where
  "exp2 e x = \<lparr>width = width x, place = place x + e, significand = significand x\<rparr>"

definition get_significand :: "fixed \<Rightarrow> int" where
  "get_significand x = significand x"

definition set_significand :: "int \<Rightarrow> fixed \<Rightarrow> fixed" where
  "set_significand v x = x\<lparr>significand := clamp_significand (width x) v\<rparr>"

section \<open>FixedPoint.h: the rounding functions\<close>

text \<open>
  What can go wrong in the functions below.  \<open>Overflow\<close> is the \<open>std::range_error\<close> of
  \<open>exact_adder\<close>.  \<open>Ill_Formed\<close> is a call that the compiler rejects, so that there is no
  program and no result: a \<open>constexpr\<close> constant of the function shifts by a count that is not
  smaller than the number of bits of the shifted type, which is not a constant expression.

  The rounding functions shift by \<open>LSB_PLACE - PLACE\<close>, which the static assertions of the
  class do not bound.  \<open>shift_ok\<close> says that a count has a meaning in C++ for a type of
  \<open>bits\<close> bits.  A shift that is evaluated at run time with any other count still compiles
  and returns a value, which C++ leaves open; \<open>shift_count\<close> is the count that the shift
  instructions of x86-64 and AArch64 then use, the low bits of the count, and that is the
  count of the run-time shifts below.  It is the count itself wherever \<open>shift_ok\<close> holds.
\<close>

datatype error = Overflow | Ill_Formed

definition shift_ok :: "nat \<Rightarrow> int \<Rightarrow> bool" where
  "shift_ok bits count = (0 \<le> count \<and> count < int bits)"

definition shift_count :: "nat \<Rightarrow> int \<Rightarrow> nat" where
  "shift_count bits count = nat count mod bits"

definition round_result_t :: "int \<Rightarrow> int \<Rightarrow> int \<Rightarrow> int \<Rightarrow> int \<times> int" where
  "round_result_t w p extra_width lsb_place =
     (if p \<ge> lsb_place then w
      else if w + p \<le> 1 + lsb_place then max 2 (1 + extra_width)
      else w + p + extra_width - lsb_place,
      max p lsb_place)"

text \<open>The number of bits of \<open>round_sig_t<EXTRA_WIDTH, LSB_PLACE>\<close>.\<close>

definition round_sig_bits :: "int \<Rightarrow> int \<Rightarrow> int \<Rightarrow> int \<Rightarrow> nat" where
  "round_sig_bits w p extra_width lsb_place =
     sig_bits (fst (round_result_t w p extra_width lsb_place) + max (lsb_place - p) 0)"

text \<open>
  \<open>round_common\<close>.  \<open>func\<close> takes and returns a \<open>round_sig_t\<close>.  In the branch for a negative
  \<open>s\<close> no operation can leave the range of that type, so none is wrapped.  The two right
  shifts by \<open>shift\<close> are evaluated at run time, on a value of type \<open>round_sig_t\<close>.
\<close>

definition round_common ::
  "int \<Rightarrow> int \<Rightarrow> (int \<Rightarrow> error + int) \<Rightarrow> fixed \<Rightarrow> error + fixed" where
  "round_common extra_width lsb_place func x =
     (let (rw, rp) = round_result_t (width x) (place x) extra_width lsb_place;
          rb = round_sig_bits (width x) (place x) extra_width lsb_place
      in if place x = rp
         then Inr \<lparr>width = rw, place = rp, significand = significand x\<rparr>
         else
           case func (to_signed rb (significand x)) of
             Inl e \<Rightarrow> Inl e
           | Inr s \<Rightarrow>
               let shift = shift_count rb (rp - place x)
               in Inr \<lparr>width = rw, place = rp,
                       significand =
                         to_signed (sig_bits rw)
                           (if s \<ge> 0 then drop_bit shift s
                            else - drop_bit shift (- (s + 1)) - 1)\<rparr>)"

text \<open>
  The eight rounding functions.  Each hands \<open>round_common\<close> a function on \<open>round_sig_t\<close>; its
  constants \<open>FRAC_MASK\<close>, \<open>HALF_MINUS_1\<close> and \<open>HALF\<close> are \<open>constexpr\<close>, computed at compile
  time whichever way the run-time tests go, so their shifts are checked first.  The sums are
  computed in \<open>round_sig_t\<close>, which is never narrower than the type of the constant.  The
  left shift in \<open>round_half_to_even\<close> is applied to a run-time value, like the shifts of
  \<open>round_common\<close>.
\<close>

definition ceil_fp :: "int \<Rightarrow> fixed \<Rightarrow> error + fixed" where
  "ceil_fp lsb_place x =
     round_common 1 lsb_place
       (\<lambda>s. if place x \<ge> lsb_place then Inr 0
            else if \<not> MAX_SIGNIFICAND_VALUE_ok (1 + lsb_place - place x) then Inl Ill_Formed
            else
              let FRAC_MASK = MAX_SIGNIFICAND_VALUE (1 + lsb_place - place x)
              in Inr (to_signed (round_sig_bits (width x) (place x) 1 lsb_place) (s + FRAC_MASK)))
       x"

definition floor_fp :: "int \<Rightarrow> fixed \<Rightarrow> error + fixed" where
  "floor_fp lsb_place x = round_common 1 lsb_place (\<lambda>s. Inr s) x"

definition trunc_fp :: "int \<Rightarrow> fixed \<Rightarrow> error + fixed" where
  "trunc_fp lsb_place x =
     round_common 0 lsb_place
       (\<lambda>s. if place x \<ge> lsb_place then Inr 0
            else if \<not> MAX_SIGNIFICAND_VALUE_ok (1 + lsb_place - place x) then Inl Ill_Formed
            else if s \<ge> 0 then Inr s
            else
              let FRAC_MASK = MAX_SIGNIFICAND_VALUE (1 + lsb_place - place x)
              in Inr (to_signed (round_sig_bits (width x) (place x) 0 lsb_place) (s + FRAC_MASK)))
       x"

definition round_half_to_even :: "int \<Rightarrow> fixed \<Rightarrow> error + fixed" where
  "round_half_to_even lsb_place x =
     round_common 1 lsb_place
       (\<lambda>s. let rb = round_sig_bits (width x) (place x) 1 lsb_place
            in if place x \<ge> lsb_place then Inr 0
               else if \<not> MAX_SIGNIFICAND_VALUE_ok (lsb_place - place x)
               then Inl Ill_Formed
               else
                 let HALF_MINUS_1 = MAX_SIGNIFICAND_VALUE (lsb_place - place x);
                     result_lsb =
                       (if s AND to_signed rb
                                   (push_bit (shift_count rb (lsb_place - place x)) 1) \<noteq> 0
                        then 1 else 0)
                 in Inr (to_signed rb (s + HALF_MINUS_1 + result_lsb)))
       x"

definition round_half_away_from_zero :: "int \<Rightarrow> fixed \<Rightarrow> error + fixed" where
  "round_half_away_from_zero lsb_place x =
     round_common 1 lsb_place
       (\<lambda>s. let rb = round_sig_bits (width x) (place x) 1 lsb_place
            in if place x \<ge> lsb_place then Inr 0
               else if \<not> shift_ok (sig_bits (width x)) (lsb_place - place x - 1)
               then Inl Ill_Formed
               else
                 let HALF = to_signed (sig_bits (width x))
                              (push_bit (nat (lsb_place - place x - 1)) 1);
                     sign_bit = (if s < 0 then 1 else 0)
                 in Inr (to_signed rb (s + HALF - sign_bit)))
       x"

definition round_half_toward_zero :: "int \<Rightarrow> fixed \<Rightarrow> error + fixed" where
  "round_half_toward_zero lsb_place x =
     round_common 1 lsb_place
       (\<lambda>s. let rb = round_sig_bits (width x) (place x) 1 lsb_place
            in if place x \<ge> lsb_place then Inr 0
               else if \<not> shift_ok (sig_bits (width x)) (lsb_place - place x - 1)
               then Inl Ill_Formed
               else
                 let HALF = to_signed (sig_bits (width x))
                              (push_bit (nat (lsb_place - place x - 1)) 1);
                     sign_bit = (if s < 0 then 1 else 0)
                 in Inr (to_signed rb (s + HALF - (sign_bit XOR 1))))
       x"

definition round_half_up :: "int \<Rightarrow> fixed \<Rightarrow> error + fixed" where
  "round_half_up lsb_place x =
     round_common 1 lsb_place
       (\<lambda>s. let rb = round_sig_bits (width x) (place x) 1 lsb_place
            in if place x \<ge> lsb_place then Inr 0
               else if \<not> shift_ok (sig_bits (width x)) (lsb_place - place x - 1)
               then Inl Ill_Formed
               else
                 let HALF = to_signed (sig_bits (width x))
                              (push_bit (nat (lsb_place - place x - 1)) 1)
                 in Inr (to_signed rb (s + HALF)))
       x"

definition round_half_down :: "int \<Rightarrow> fixed \<Rightarrow> error + fixed" where
  "round_half_down lsb_place x =
     round_common 1 lsb_place
       (\<lambda>s. let rb = round_sig_bits (width x) (place x) 1 lsb_place
            in if place x \<ge> lsb_place then Inr 0
               else if \<not> MAX_SIGNIFICAND_VALUE_ok (lsb_place - place x)
               then Inl Ill_Formed
               else
                 let HALF_MINUS_1 = MAX_SIGNIFICAND_VALUE (lsb_place - place x)
                 in Inr (to_signed rb (s + HALF_MINUS_1)))
       x"

section \<open>double_limit.h\<close>

text \<open>
  \<open>limit_precision(double a, int width, int place)\<close>.  Its first statement replaces \<open>a\<close> by
  \<open>std::nearbyint(a * std::exp2(-place))\<close>, the same expression as in \<open>to_significand\<close>; its
  value is the argument \<open>r\<close> here, as it is there.  The function then compares that \<open>double\<close>
  with \<open>MAX_VALUE\<close>, an \<open>int_fast64_t\<close> computed in \<open>uint_fast64_t\<close>, and returns the clamped
  value times \<open>std::exp2(place)\<close>.  No value is converted to an integer type.  Its
  assertions are the static assertions of class \<open>FixedPoint\<close>, and for a \<open>width\<close> and a
  \<open>place\<close> that pass them the product is a \<open>double\<close>, so that nothing is rounded in it.
\<close>

definition limit_precision :: "int \<Rightarrow> int \<Rightarrow> int \<Rightarrow> real" where
  "limit_precision r w p =
     (let MAX_VALUE = to_signed 64 (to_unsigned 64 (to_unsigned 64 (push_bit (nat (w - 1)) 1) - 1));
          a = (if r > MAX_VALUE then MAX_VALUE
               else if r < - MAX_VALUE then - MAX_VALUE
               else r)
      in of_int a * 2 powi p)"

section \<open>FixedPointComplex.h\<close>

record fixed_complex =
  re_part :: fixed
  im_part :: fixed

definition complex_times :: "fixed_complex \<Rightarrow> fixed_complex \<Rightarrow> fixed_complex" where
  "complex_times x op2 =
     \<lparr>re_part = operator_minus (operator_times (re_part x) (re_part op2)) (operator_times (im_part x) (im_part op2)),
      im_part = operator_plus (operator_times (re_part x) (im_part op2)) (operator_times (im_part x) (re_part op2))\<rparr>"

section \<open>fixed_numeric.h\<close>

text \<open>
  The adders take the accumulator as a \<open>significand_t<WIDTH1>\<close> and the increment as a
  \<open>FixedPoint<WIDTH2, PLACE>\<close>; their one static assertion is \<open>WIDTH1 >= WIDTH2\<close>.  In each
  of them the sum \<open>accumulator + increment.get_significand()\<close> is computed in
  \<open>significand_t<WIDTH1>\<close>, the common type of its operands.
\<close>

definition adder_ok :: "int \<Rightarrow> fixed \<Rightarrow> bool" where
  "adder_ok width1 increment = (width1 \<ge> width increment)"

definition int_adder :: "int \<Rightarrow> int \<Rightarrow> fixed \<Rightarrow> int" where
  "int_adder width1 accumulator increment =
     (let b = sig_bits width1;
          result = to_signed b (to_signed b accumulator + get_significand increment);
          UMASK = to_unsigned b (MAX_SIGNIFICAND_VALUE width1)
      in if to_unsigned b result AND to_unsigned b (UMASK + 1) = 0
         then to_signed b (to_unsigned b result AND UMASK)
         else to_signed b (to_unsigned b result OR to_unsigned b (NOT UMASK)))"

text \<open>
  In \<open>exact_adder\<close> and \<open>clamp_adder\<close> the sum initialises a variable of type
  \<open>significand_t<WIDTH1 + 1>\<close>: it is converted to that type after the addition.
\<close>

definition exact_adder :: "int \<Rightarrow> int \<Rightarrow> fixed \<Rightarrow> error + int" where
  "exact_adder width1 accumulator increment =
     (let b = sig_bits width1;
          b1 = sig_bits (width1 + 1);
          result = to_signed b1 (to_signed b (to_signed b accumulator + get_significand increment));
          SIGN_MASK = to_unsigned b1 (NOT (to_unsigned b1 (MAX_SIGNIFICAND_VALUE width1)))
      in if (to_unsigned b1 result AND SIGN_MASK) \<noteq> 0
            \<and> (to_unsigned b1 result AND SIGN_MASK) \<noteq> SIGN_MASK
         then Inl Overflow
         else Inr (to_signed b result))"

definition clamp_adder :: "int \<Rightarrow> int \<Rightarrow> fixed \<Rightarrow> int" where
  "clamp_adder width1 accumulator increment =
     (let b = sig_bits width1;
          b1 = sig_bits (width1 + 1);
          result = to_signed b1 (to_signed b (to_signed b accumulator + get_significand increment))
      in clamp width1 result)"

text \<open>The \<open>w\<close>-bit two's complement range, for accumulators and sums.\<close>

definition fits_twos_complement :: "int \<Rightarrow> int \<Rightarrow> bool" where
  "fits_twos_complement w v = (- (2 ^ nat (w - 1)) \<le> v \<and> v \<le> 2 ^ nat (w - 1) - 1)"

section \<open>The instances a program can build\<close>

text \<open>
  \<open>reachable d x\<close>: the instance \<open>x\<close> can be built through the public interface of class
  \<open>FixedPoint\<close>, by a program in which every call of a rounding function has
  \<open>LSB_PLACE - PLACE < d\<close>.  There is one rule for each public constructor and member function
  that returns an instance.  A rule asks of the type of the new instance that it pass the
  static assertions of the class, and a rounding rule that the call be not \<open>Ill_Formed\<close>,
  because the program does not compile otherwise.  A rounding rule admits whatever the
  function returns, also where the count of a run-time shift is outside of what C++ defines.
  An instance that some program builds is \<open>reachable d x\<close> for some \<open>d\<close>.
\<close>

inductive reachable :: "int \<Rightarrow> fixed \<Rightarrow> bool" for d :: int where
  default_constructed:
    "valid_type w p \<Longrightarrow> reachable d (FixedPoint_zero w p)"
| narrowing_copy:
    "reachable d src \<Longrightarrow> valid_type w p \<Longrightarrow> narrower w p (width src) (place src)
     \<Longrightarrow> reachable d (FixedPoint_from w p src)"
| from_double:
    "valid_type w p \<Longrightarrow> reachable d (FixedPoint_of_rounded w p r)"
| by_set_significand:
    "reachable d x \<Longrightarrow> reachable d (set_significand v x)"
| by_reduce_dynamic_range:
    "reachable d x \<Longrightarrow> valid_type dest_width (place x)
     \<Longrightarrow> reachable d (reduce_dynamic_range dest_width x)"
| by_operator_neg:
    "reachable d x \<Longrightarrow> reachable d (operator_neg x)"
| by_operator_plus:
    "reachable d x \<Longrightarrow> reachable d op2
     \<Longrightarrow> valid_type (fst (addition_result_t (width x) (place x) (width op2) (place op2)))
           (snd (addition_result_t (width x) (place x) (width op2) (place op2)))
     \<Longrightarrow> reachable d (operator_plus x op2)"
| by_operator_minus:
    "reachable d x \<Longrightarrow> reachable d op2
     \<Longrightarrow> valid_type (fst (addition_result_t (width x) (place x) (width op2) (place op2)))
           (snd (addition_result_t (width x) (place x) (width op2) (place op2)))
     \<Longrightarrow> reachable d (operator_minus x op2)"
| by_operator_times:
    "reachable d x \<Longrightarrow> reachable d op2
     \<Longrightarrow> valid_type (width x + width op2 - 1) (place x + place op2)
     \<Longrightarrow> reachable d (operator_times x op2)"
| by_exp2:
    "reachable d x \<Longrightarrow> valid_type (width x) (place x + e) \<Longrightarrow> reachable d (exp2 e x)"
| by_ceil:
    "reachable d x \<Longrightarrow> lsb_place - place x < d \<Longrightarrow> ceil_fp lsb_place x = Inr y
     \<Longrightarrow> valid_type (width y) (place y) \<Longrightarrow> reachable d y"
| by_floor:
    "reachable d x \<Longrightarrow> lsb_place - place x < d \<Longrightarrow> floor_fp lsb_place x = Inr y
     \<Longrightarrow> valid_type (width y) (place y) \<Longrightarrow> reachable d y"
| by_trunc:
    "reachable d x \<Longrightarrow> lsb_place - place x < d \<Longrightarrow> trunc_fp lsb_place x = Inr y
     \<Longrightarrow> valid_type (width y) (place y) \<Longrightarrow> reachable d y"
| by_round_half_to_even:
    "reachable d x \<Longrightarrow> lsb_place - place x < d \<Longrightarrow> round_half_to_even lsb_place x = Inr y
     \<Longrightarrow> valid_type (width y) (place y) \<Longrightarrow> reachable d y"
| by_round_half_away_from_zero:
    "reachable d x \<Longrightarrow> lsb_place - place x < d
     \<Longrightarrow> round_half_away_from_zero lsb_place x = Inr y
     \<Longrightarrow> valid_type (width y) (place y) \<Longrightarrow> reachable d y"
| by_round_half_toward_zero:
    "reachable d x \<Longrightarrow> lsb_place - place x < d
     \<Longrightarrow> round_half_toward_zero lsb_place x = Inr y
     \<Longrightarrow> valid_type (width y) (place y) \<Longrightarrow> reachable d y"
| by_round_half_up:
    "reachable d x \<Longrightarrow> lsb_place - place x < d \<Longrightarrow> round_half_up lsb_place x = Inr y
     \<Longrightarrow> valid_type (width y) (place y) \<Longrightarrow> reachable d y"
| by_round_half_down:
    "reachable d x \<Longrightarrow> lsb_place - place x < d \<Longrightarrow> round_half_down lsb_place x = Inr y
     \<Longrightarrow> valid_type (width y) (place y) \<Longrightarrow> reachable d y"

section \<open>Machine arithmetic and the significand range\<close>

lemma to_signed_id: "0 < n \<Longrightarrow> - (2 ^ (n - 1)) \<le> x \<Longrightarrow> x < 2 ^ (n - 1) \<Longrightarrow> to_signed n x = x"
  by (simp add: to_signed_def signed_take_bit_int_eq_self)

lemma to_unsigned_id: "0 \<le> x \<Longrightarrow> x < 2 ^ n \<Longrightarrow> to_unsigned n x = x"
  by (simp add: to_unsigned_def take_bit_int_eq_self)

lemma pow2_facts:
  fixes n b :: nat
  assumes "n \<le> b - 1" "0 < b"
  shows "(2::int) ^ n \<le> 2 ^ (b - 1)" "(2::int) ^ (b - 1) < 2 ^ b" "(0::int) < 2 ^ n"
  using assms by (simp_all add: power_increasing power_strict_increasing)

lemma MAX_SIGNIFICAND_VALUE_eq:
  assumes "1 \<le> w" "w \<le> 64"
  shows "MAX_SIGNIFICAND_VALUE w = 2 ^ nat (w - 1) - 1"
proof -
  define n where "n = nat (w - 1)"
  define b where "b = sig_bits w"
  have nb: "n \<le> b - 1" and bpos: "0 < b"
    using assms by (auto simp: n_def b_def sig_bits_def)
  note p = pow2_facts [OF nb bpos]
  have a: "to_unsigned b (push_bit n 1) = 2 ^ n"
    unfolding push_bit_eq_mult mult_1
    by (rule to_unsigned_id) (use p in linarith)+
  have b': "to_unsigned b (2 ^ n - 1) = 2 ^ n - 1"
    by (rule to_unsigned_id) (use p in linarith)+
  have c: "to_signed b (2 ^ n - 1) = 2 ^ n - 1"
    by (rule to_signed_id) (use p bpos in linarith)+
  show ?thesis
    unfolding MAX_SIGNIFICAND_VALUE_def b_def [symmetric] n_def [symmetric] a b' c ..
qed

lemma MIN_SIGNIFICAND_VALUE_eq:
  assumes "1 \<le> w" "w \<le> 64"
  shows "MIN_SIGNIFICAND_VALUE w = - (2 ^ nat (w - 1) - 1)"
proof -
  define n where "n = nat (w - 1)"
  define b where "b = sig_bits w"
  have nb: "n \<le> b - 1" and bpos: "0 < b"
    using assms by (auto simp: n_def b_def sig_bits_def)
  note p = pow2_facts [OF nb bpos]
  have c: "to_signed b (- (2 ^ n - 1)) = - (2 ^ n - 1)"
    by (rule to_signed_id) (use p bpos in linarith)+
  show ?thesis
    unfolding MIN_SIGNIFICAND_VALUE_def MAX_SIGNIFICAND_VALUE_eq [OF assms]
      b_def [symmetric] n_def [symmetric]
    by (rule c)
qed

lemma clamp_in_range:
  assumes "1 \<le> w" "w \<le> 64"
  shows "in_range w (clamp w v)"
proof -
  have "(0::int) < 2 ^ nat (w - 1)" by simp
  then show ?thesis
    unfolding clamp_def in_range_def Let_def MAX_SIGNIFICAND_VALUE_eq [OF assms]
      MIN_SIGNIFICAND_VALUE_eq [OF assms]
    by (simp only: split: if_splits) linarith
qed

lemma to_signed_in_range:
  assumes "1 \<le> w" "w \<le> 64" "in_range w v"
  shows "to_signed (sig_bits w) v = v"
proof -
  define n where "n = nat (w - 1)"
  define b where "b = sig_bits w"
  have nb: "n \<le> b - 1" and bpos: "0 < b"
    using assms by (auto simp: n_def b_def sig_bits_def)
  note p = pow2_facts [OF nb bpos]
  have r: "- (2 ^ n - 1) \<le> v" "v \<le> 2 ^ n - 1"
    using assms(3) by (simp_all add: in_range_def n_def)
  have c: "to_signed b v = v"
    by (rule to_signed_id) (use p bpos r in linarith)+
  then show ?thesis by (simp add: b_def)
qed

lemma clamp_id:
  assumes "1 \<le> w" "w \<le> 64" "in_range w v"
  shows "clamp w v = v"
  using assms(3)
  unfolding clamp_def Let_def MAX_SIGNIFICAND_VALUE_eq [OF assms(1,2)]
      MIN_SIGNIFICAND_VALUE_eq [OF assms(1,2)] to_signed_in_range [OF assms]
  by (simp add: in_range_def)


lemma stb_add_left:
  "signed_take_bit n (signed_take_bit n a + b) = signed_take_bit n (a + (b::int))"
  using signed_take_bit_add [of n "signed_take_bit n a" b] signed_take_bit_add [of n a b]
  by simp

lemma int_adder_eq:
  assumes "1 \<le> w1" "w1 \<le> 64"
  shows "int_adder w1 a inc = signed_take_bit (nat (w1 - 1)) (a + significand inc)"
proof -
  define n where "n = nat (w1 - 1)"
  define b where "b = sig_bits w1"
  define x where "x = a + significand inc"
  have nb: "n \<le> b - 1" and bpos: "0 < b"
    using assms by (auto simp: n_def b_def sig_bits_def)
  note p = pow2_facts [OF nb bpos]
  have res: "to_signed b (to_signed b a + get_significand inc) = signed_take_bit (b - 1) x"
    by (simp add: to_signed_def get_significand_def x_def stb_add_left)
  have um: "to_unsigned b (MAX_SIGNIFICAND_VALUE w1) = mask n"
    unfolding MAX_SIGNIFICAND_VALUE_eq [OF assms] n_def [symmetric] mask_eq_exp_minus_1
    by (rule to_unsigned_id) (use p in linarith)+
  have um1: "to_unsigned b (mask n + 1) = 2 ^ n"
    unfolding mask_eq_exp_minus_1
    using to_unsigned_id [of "2 ^ n" b] p by simp
  have cond: "(to_unsigned b (signed_take_bit (b - 1) x) AND 2 ^ n = 0) = (\<not> bit x n)"
    using nb bpos unfolding and_exp_eq_0_iff_not_bit to_unsigned_def
    by (auto simp: bit_simps)
  have t: "\<not> bit x n \<Longrightarrow>
      to_signed b (to_unsigned b (signed_take_bit (b - 1) x) AND mask n) = signed_take_bit n x"
    unfolding to_signed_def to_unsigned_def
    using nb bpos by (intro bit_eqI) (auto simp: bit_simps min_def split: if_splits)
  have e: "bit x n \<Longrightarrow>
      to_signed b (to_unsigned b (signed_take_bit (b - 1) x) OR to_unsigned b (NOT (mask n)))
        = signed_take_bit n x"
    unfolding to_signed_def to_unsigned_def
    using nb bpos by (intro bit_eqI) (auto simp: bit_simps min_def split: if_splits)
  show ?thesis
    unfolding int_adder_def Let_def b_def [symmetric] res um um1 cond
    using t e by (simp add: n_def x_def)
qed

lemma MAX_SIGNIFICAND_VALUE_ok_iff: "MAX_SIGNIFICAND_VALUE_ok w \<longleftrightarrow> 1 \<le> w \<and> w \<le> 64"
  by (auto simp: MAX_SIGNIFICAND_VALUE_ok_def sig_bits_def)

lemma stb_congruent: "(signed_take_bit n x - x) mod 2 ^ Suc n = (0::int)"
proof -
  have "signed_take_bit n x - x = (x + 2 ^ n) mod 2 ^ Suc n - (x + 2 ^ n)"
    by (simp add: signed_take_bit_eq_take_bit_shift take_bit_eq_mod)
  also have "\<dots> mod 2 ^ Suc n = 0"
    by (simp add: mod_eq_0_iff_dvd flip: mod_eq_dvd_iff)
  finally show ?thesis .
qed

lemma stb_unique:
  assumes "- (2 ^ n) \<le> r" "r < 2 ^ n" "(r - x) mod 2 ^ Suc n = (0::int)"
  shows "r = signed_take_bit n x"
proof -
  have "r mod 2 ^ Suc n = x mod 2 ^ Suc n"
    using assms(3) by (simp add: mod_eq_dvd_iff mod_eq_0_iff_dvd)
  then have "signed_take_bit n r = signed_take_bit n x"
    by (simp add: signed_take_bit_eq_iff_take_bit_eq take_bit_eq_mod)
  moreover have "signed_take_bit n r = r"
    using assms(1,2) by (rule signed_take_bit_int_eq_self)
  ultimately show ?thesis by simp
qed

section \<open>Result types\<close>

text \<open>
  C2.  For all operand types (widthA, placeA) and (widthB, placeB), the type that
  \<open>operator+\<close> and \<open>operator-\<close> return has place min(placeA, placeB) and width
  max(widthA+placeA, widthB+placeB) - min(placeA, placeB) + extra, where extra is 0 when
  placeA \<ge> widthB+placeB-1 or placeB \<ge> widthA+placeA-1, and 1 otherwise.
\<close>

theorem addition_result_type:
  "addition_result_t widthA placeA widthB placeB
     = (spec_addition_width widthA placeA widthB placeB,
        spec_addition_place widthA placeA widthB placeB)
   \<and> width (operator_plus \<lparr>width = widthA, place = placeA, significand = sa\<rparr>
                           \<lparr>width = widthB, place = placeB, significand = sb\<rparr>)
       = spec_addition_width widthA placeA widthB placeB
   \<and> place (operator_plus \<lparr>width = widthA, place = placeA, significand = sa\<rparr>
                           \<lparr>width = widthB, place = placeB, significand = sb\<rparr>)
       = spec_addition_place widthA placeA widthB placeB
   \<and> width (operator_minus \<lparr>width = widthA, place = placeA, significand = sa\<rparr>
                            \<lparr>width = widthB, place = placeB, significand = sb\<rparr>)
       = spec_addition_width widthA placeA widthB placeB
   \<and> place (operator_minus \<lparr>width = widthA, place = placeA, significand = sa\<rparr>
                            \<lparr>width = widthB, place = placeB, significand = sb\<rparr>)
       = spec_addition_place widthA placeA widthB placeB"
  by (simp add: addition_result_t_def superset_width_def spec_addition_width_def
      spec_extra_def spec_addition_place_def operator_plus_def operator_minus_def
      FixedPoint_from_def)

theorem addition_result_type_witness:
  "addition_result_t 8 (-4) 7 (-5) = (10, -5) \<and> addition_result_t 8 4 4 0 = (12, 0)"
  using addition_result_type [of 8 "-4" 7 "-5"] addition_result_type [of 8 4 4 0]
  by (simp add: spec_addition_width_def spec_extra_def spec_addition_place_def)

text \<open>
  C9.  Multiplying a complex number whose parts have width 8 and place -4 by one whose parts
  have width 7 and place -5 gives parts of width 15 and place -9: each of the four products
  has width 14 and place -9, and their difference and sum take one more bit.
\<close>

theorem complex_times_type:
  "width (operator_times \<lparr>width = 8, place = - 4, significand = a\<rparr>
                          \<lparr>width = 7, place = - 5, significand = c\<rparr>) = 14
   \<and> place (operator_times \<lparr>width = 8, place = - 4, significand = a\<rparr>
                            \<lparr>width = 7, place = - 5, significand = c\<rparr>) = - 9
   \<and> addition_result_t 14 (- 9) 14 (- 9) = (15, - 9)
   \<and> width (re_part (complex_times
        \<lparr>re_part = \<lparr>width = 8, place = - 4, significand = a\<rparr>,
         im_part = \<lparr>width = 8, place = - 4, significand = b\<rparr>\<rparr>
        \<lparr>re_part = \<lparr>width = 7, place = - 5, significand = c\<rparr>,
         im_part = \<lparr>width = 7, place = - 5, significand = d\<rparr>\<rparr>)) = 15
   \<and> place (re_part (complex_times
        \<lparr>re_part = \<lparr>width = 8, place = - 4, significand = a\<rparr>,
         im_part = \<lparr>width = 8, place = - 4, significand = b\<rparr>\<rparr>
        \<lparr>re_part = \<lparr>width = 7, place = - 5, significand = c\<rparr>,
         im_part = \<lparr>width = 7, place = - 5, significand = d\<rparr>\<rparr>)) = - 9
   \<and> width (im_part (complex_times
        \<lparr>re_part = \<lparr>width = 8, place = - 4, significand = a\<rparr>,
         im_part = \<lparr>width = 8, place = - 4, significand = b\<rparr>\<rparr>
        \<lparr>re_part = \<lparr>width = 7, place = - 5, significand = c\<rparr>,
         im_part = \<lparr>width = 7, place = - 5, significand = d\<rparr>\<rparr>)) = 15
   \<and> place (im_part (complex_times
        \<lparr>re_part = \<lparr>width = 8, place = - 4, significand = a\<rparr>,
         im_part = \<lparr>width = 8, place = - 4, significand = b\<rparr>\<rparr>
        \<lparr>re_part = \<lparr>width = 7, place = - 5, significand = c\<rparr>,
         im_part = \<lparr>width = 7, place = - 5, significand = d\<rparr>\<rparr>)) = - 9"
  by (simp add: complex_times_def operator_times_def operator_minus_def operator_plus_def
      addition_result_t_def superset_width_def FixedPoint_from_def)

section \<open>The accumulation adders\<close>

text \<open>
  C8.  For an accumulator in the \<open>WIDTH1\<close>-bit two's complement range and an increment of width
  at most \<open>WIDTH1\<close>, \<open>int_adder<WIDTH1>\<close> returns the one value of
  [-2^(WIDTH1-1), 2^(WIDTH1-1)-1] that is congruent to accumulator + increment.get_significand()
  modulo 2^WIDTH1.  \<open>MAX_SIGNIFICAND_VALUE_ok\<close> is what the compiler asks of \<open>WIDTH1\<close>.  With
  width 12, the accumulator 2000 and the increment 50 of width 8 that value is -2046.
\<close>

theorem int_adder_wraparound:
  assumes "legal increment" "adder_ok width1 increment" "MAX_SIGNIFICAND_VALUE_ok width1"
    and "fits_twos_complement width1 accumulator"
  shows "fits_twos_complement width1 (int_adder width1 accumulator increment)
    \<and> (int_adder width1 accumulator increment - (accumulator + get_significand increment))
          mod 2 ^ nat width1 = 0
    \<and> (\<forall>r. fits_twos_complement width1 r
            \<and> (r - (accumulator + get_significand increment)) mod 2 ^ nat width1 = 0
          \<longrightarrow> r = int_adder width1 accumulator increment)"
proof -
  define n where "n = nat (width1 - 1)"
  have w: "1 \<le> width1" "width1 \<le> 64"
    using assms(3) by (simp_all add: MAX_SIGNIFICAND_VALUE_ok_iff)
  have sn: "nat width1 = Suc n"
    using w by (simp add: n_def)
  have eq: "int_adder width1 accumulator increment
      = signed_take_bit n (accumulator + get_significand increment)"
    unfolding n_def get_significand_def by (rule int_adder_eq [OF w])
  have lo: "- (2 ^ n) \<le> signed_take_bit n (accumulator + get_significand increment)"
    by (rule signed_take_bit_int_greater_eq_minus_exp)
  have hi: "signed_take_bit n (accumulator + get_significand increment) < 2 ^ n"
    by (rule signed_take_bit_int_less_exp)
  have 1: "fits_twos_complement width1 (int_adder width1 accumulator increment)"
    unfolding fits_twos_complement_def eq n_def [symmetric] using lo hi by linarith
  have 2: "(int_adder width1 accumulator increment - (accumulator + get_significand increment))
          mod 2 ^ nat width1 = 0"
    unfolding eq sn by (rule stb_congruent)
  have 3: "r = int_adder width1 accumulator increment"
    if "fits_twos_complement width1 r"
      and "(r - (accumulator + get_significand increment)) mod 2 ^ nat width1 = 0" for r
    unfolding eq
  proof (rule stb_unique)
    show "- (2 ^ n) \<le> r" "r < 2 ^ n"
      using that(1) by (simp_all add: fits_twos_complement_def n_def)
    show "(r - (accumulator + get_significand increment)) mod 2 ^ Suc n = 0"
      using that(2) by (simp only: sn)
  qed
  show ?thesis
  proof (intro conjI allI impI)
    fix r
    assume "fits_twos_complement width1 r
      \<and> (r - (accumulator + get_significand increment)) mod 2 ^ nat width1 = 0"
    then show "r = int_adder width1 accumulator increment"
      by (elim conjE) (rule 3)
  qed (rule 1, rule 2)
qed

lemma int_adder_example:
  "int_adder 12 2000 \<lparr>width = 8, place = 0, significand = 50\<rparr> = - 2046"
  by code_simp

theorem int_adder_wraparound_witness:
  "legal \<lparr>width = 8, place = 0, significand = 50\<rparr>
   \<and> adder_ok 12 \<lparr>width = 8, place = 0, significand = 50\<rparr>
   \<and> MAX_SIGNIFICAND_VALUE_ok 12
   \<and> fits_twos_complement 12 2000
   \<and> fits_twos_complement 12 (int_adder 12 2000 \<lparr>width = 8, place = 0, significand = 50\<rparr>)
   \<and> int_adder 12 2000 \<lparr>width = 8, place = 0, significand = 50\<rparr> = - 2046"
proof -
  let ?i = "\<lparr>width = 8, place = 0, significand = 50\<rparr>"
  have h1: "legal ?i"
    by (simp add: legal_def valid_type_def in_range_def MIN_BIT_WIDTH_def MAX_BIT_WIDTH_def
        MIN_LSB_PLACE_def MAX_MSB_PLACE_def)
  have h2: "adder_ok 12 ?i" by (simp add: adder_ok_def)
  have h3: "MAX_SIGNIFICAND_VALUE_ok 12" by (simp add: MAX_SIGNIFICAND_VALUE_ok_def sig_bits_def)
  have h4: "fits_twos_complement 12 2000" by (simp add: fits_twos_complement_def)
  have r: "fits_twos_complement 12 (- 2046)" by (simp add: fits_twos_complement_def)
  have c: "(- 2046 - (2000 + get_significand ?i)) mod 2 ^ nat 12 = (0::int)"
    by (simp add: get_significand_def)
  note th = int_adder_wraparound [OF h1 h2 h3 h4]
  have u: "- 2046 = int_adder 12 2000 ?i"
    by (rule th [THEN conjunct2, THEN conjunct2, rule_format, of "- 2046"]) (intro conjI r c)
  have f: "fits_twos_complement 12 (int_adder 12 2000 ?i)"
    by (rule th [THEN conjunct1])
  show ?thesis
    by (intro conjI h1 h2 h3 h4 f u [symmetric])
qed

lemma clamp_ok_width: "clamp_ok w \<Longrightarrow> 1 \<le> w \<and> w \<le> 64"
  by (simp add: clamp_ok_def MIN_BIT_WIDTH_def MAX_BIT_WIDTH_def)

text \<open>
  C10.  For an accumulator in the range of width-\<open>WIDTH1\<close> significands and an increment of
  width at most \<open>WIDTH1\<close>, the result of \<open>clamp_adder<WIDTH1>\<close> is in
  [-(2^(WIDTH1-1)-1), 2^(WIDTH1-1)-1] and is never -2^(WIDTH1-1).  \<open>clamp_ok\<close> is the static
  assertion of \<open>clamp<WIDTH1>\<close>.
\<close>

theorem clamp_adder_in_range:
  assumes "in_range width1 accumulator" "legal increment" "adder_ok width1 increment"
    and "clamp_ok width1"
  shows "- (2 ^ nat (width1 - 1) - 1) \<le> clamp_adder width1 accumulator increment
    \<and> clamp_adder width1 accumulator increment \<le> 2 ^ nat (width1 - 1) - 1
    \<and> clamp_adder width1 accumulator increment \<noteq> - (2 ^ nat (width1 - 1))"
proof -
  have w: "1 \<le> width1" "width1 \<le> 64"
    using clamp_ok_width [OF assms(4)] by simp_all
  have "in_range width1 (clamp_adder width1 accumulator increment)"
    unfolding clamp_adder_def Let_def by (rule clamp_in_range [OF w])
  then show ?thesis
    unfolding in_range_def by linarith
qed

lemma int_adder_minimum:
  "int_adder 12 (- 2000) \<lparr>width = 8, place = 0, significand = - 48\<rparr> = - (2 ^ nat (12 - 1))"
  by code_simp

theorem clamp_adder_in_range_witness:
  "in_range 12 2000
   \<and> legal \<lparr>width = 8, place = 0, significand = 50\<rparr>
   \<and> adder_ok 12 \<lparr>width = 8, place = 0, significand = 50\<rparr>
   \<and> clamp_ok 12
   \<and> clamp_adder 12 2000 \<lparr>width = 8, place = 0, significand = 50\<rparr> = 2047
   \<and> clamp_adder 12 2000 \<lparr>width = 8, place = 0, significand = 50\<rparr> \<le> 2 ^ nat (12 - 1) - 1"
proof -
  let ?i = "\<lparr>width = 8, place = 0, significand = 50\<rparr>"
  have h0: "in_range 12 2000" by (simp add: in_range_def)
  have h1: "legal ?i"
    by (simp add: legal_def valid_type_def in_range_def MIN_BIT_WIDTH_def MAX_BIT_WIDTH_def
        MIN_LSB_PLACE_def MAX_MSB_PLACE_def)
  have h2: "adder_ok 12 ?i" by (simp add: adder_ok_def)
  have h3: "clamp_ok 12" by (simp add: clamp_ok_def MIN_BIT_WIDTH_def MAX_BIT_WIDTH_def)
  have v: "clamp_adder 12 2000 ?i = 2047" by code_simp
  note th = clamp_adder_in_range [OF h0 h1 h2 h3]
  show ?thesis
    by (intro conjI h0 h1 h2 h3 v th [THEN conjunct2, THEN conjunct1])
qed

subsection \<open>\<open>exact_adder\<close>\<close>

text \<open>
  The test on \<open>SIGN_MASK\<close> says whether a value fits in \<open>n + 1\<close> bits.
\<close>

lemma sign_mask_test:
  fixes x :: int and n b :: nat
  assumes nb: "n < b" and sx: "signed_take_bit (b - 1) x = x"
  shows "(take_bit b x AND take_bit b (NOT (mask n)) = 0
          \<or> take_bit b x AND take_bit b (NOT (mask n)) = take_bit b (NOT (mask n)))
         \<longleftrightarrow> (- (2 ^ n) \<le> x \<and> x < 2 ^ n)"
proof -
  define M :: int where "M = take_bit b (NOT (mask n))"
  define y where "y = take_bit b x AND M"
  have bit_y: "bit y i \<longleftrightarrow> i < b \<and> n \<le> i \<and> bit x i" for i
    by (auto simp: y_def M_def bit_simps)
  have bit_M: "bit M i \<longleftrightarrow> i < b \<and> n \<le> i" for i
    by (auto simp: M_def bit_simps)
  have high: "bit x i = bit x (b - 1)" if "b - 1 \<le> i" for i
  proof -
    have "bit x i = bit (signed_take_bit (b - 1) x) i" by (simp only: sx)
    also have "\<dots> = bit x (b - 1)" using that by (simp add: bit_simps min_def)
    finally show ?thesis .
  qed
  have A: "y = 0 \<longleftrightarrow> (\<forall>i. n \<le> i \<longrightarrow> \<not> bit x i)"
  proof
    assume "y = 0"
    then have z: "\<not> bit y i" for i by simp
    show "\<forall>i. n \<le> i \<longrightarrow> \<not> bit x i"
    proof (intro allI impI)
      fix i assume ni: "n \<le> i"
      show "\<not> bit x i"
      proof (cases "i < b")
        case True
        then show ?thesis using z [of i] ni by (simp add: bit_y)
      next
        case False
        then have "bit x i = bit x (b - 1)" by (intro high) simp
        moreover have "\<not> bit x (b - 1)"
        proof
          assume "bit x (b - 1)"
          then have "bit y (b - 1)" using nb by (simp add: bit_y)
          then show False using z by simp
        qed
        ultimately show ?thesis by simp
      qed
    qed
  next
    assume "\<forall>i. n \<le> i \<longrightarrow> \<not> bit x i"
    then show "y = 0" by (intro bit_eqI) (simp add: bit_y)
  qed
  have B: "y = M \<longleftrightarrow> (\<forall>i. n \<le> i \<longrightarrow> bit x i)"
  proof
    assume "y = M"
    then have z: "bit y i = bit M i" for i by simp
    show "\<forall>i. n \<le> i \<longrightarrow> bit x i"
    proof (intro allI impI)
      fix i assume ni: "n \<le> i"
      show "bit x i"
      proof (cases "i < b")
        case True
        then show ?thesis using z [of i] ni by (simp add: bit_y bit_M)
      next
        case False
        then have "bit x i = bit x (b - 1)" by (intro high) simp
        moreover have "bit x (b - 1)"
        proof -
          have "bit M (b - 1)" using nb by (simp add: bit_M)
          then have "bit y (b - 1)" by (simp only: z)
          then show ?thesis by (simp only: bit_y)
        qed
        ultimately show ?thesis by simp
      qed
    qed
  next
    assume "\<forall>i. n \<le> i \<longrightarrow> bit x i"
    then show "y = M" by (intro bit_eqI) (auto simp: bit_y bit_M)
  qed
  have C: "signed_take_bit n x = x \<longleftrightarrow> (\<forall>i. n \<le> i \<longrightarrow> bit x i = bit x n)"
  proof
    assume e: "signed_take_bit n x = x"
    show "\<forall>i. n \<le> i \<longrightarrow> bit x i = bit x n"
    proof (intro allI impI)
      fix i assume ni: "n \<le> i"
      have "bit x i = bit (signed_take_bit n x) i" by (simp only: e)
      also have "\<dots> = bit x n" using ni by (simp add: bit_simps min_def)
      finally show "bit x i = bit x n" .
    qed
  next
    assume a: "\<forall>i. n \<le> i \<longrightarrow> bit x i = bit x n"
    show "signed_take_bit n x = x"
    proof (rule bit_eqI)
      fix i
      show "bit (signed_take_bit n x) i = bit x i"
      proof (cases "n \<le> i")
        case True
        then have "bit x i = bit x n" using a by blast
        with True show ?thesis by (simp add: bit_simps min_def)
      next
        case False
        then show ?thesis by (simp add: bit_simps min_def)
      qed
    qed
  qed
  have "(y = 0 \<or> y = M) \<longleftrightarrow> signed_take_bit n x = x"
    unfolding A B C
  proof (cases "bit x n")
    case True
    then show "((\<forall>i\<ge>n. \<not> bit x i) \<or> (\<forall>i\<ge>n. bit x i)) = (\<forall>i\<ge>n. bit x i = bit x n)"
      by (metis order_refl)
  next
    case False
    then show "((\<forall>i\<ge>n. \<not> bit x i) \<or> (\<forall>i\<ge>n. bit x i)) = (\<forall>i\<ge>n. bit x i = bit x n)"
      by (metis order_refl)
  qed
  then show ?thesis
    unfolding y_def M_def signed_take_bit_int_eq_self_iff .
qed

text \<open>
  Where \<open>significand_t<WIDTH1>\<close> has more than \<open>WIDTH1\<close> bits the sum is exact and the
  function raises exactly when it does not fit in \<open>WIDTH1\<close> bits.
\<close>

lemma exact_adder_exact:
  assumes acc: "in_range width1 accumulator" and inc: "legal increment"
    and ok: "adder_ok width1 increment" "MAX_SIGNIFICAND_VALUE_ok width1"
    and headroom: "width1 \<noteq> 32" "width1 \<noteq> 64"
  shows "exact_adder width1 accumulator increment =
          (if fits_twos_complement width1 (accumulator + get_significand increment)
           then Inr (accumulator + get_significand increment) else Inl Overflow)"
proof -
  define n where "n = nat (width1 - 1)"
  define b where "b = sig_bits width1"
  define x where "x = accumulator + get_significand increment"
  have w: "1 \<le> width1" "width1 \<le> 64"
    using ok(2) by (simp_all add: MAX_SIGNIFICAND_VALUE_ok_iff)
  have b1: "sig_bits (width1 + 1) = b"
    using headroom by (simp add: b_def sig_bits_def)
  have nb: "Suc n \<le> b - 1" and bpos: "0 < b"
    using w headroom by (auto simp: n_def b_def sig_bits_def)
  have pn: "(2::int) ^ Suc n = 2 * 2 ^ n" "(0::int) < 2 ^ n"
    by simp_all
  note p = pow2_facts [OF nb bpos] pn
  have w2: "nat (width increment - 1) \<le> n"
    using ok(1) by (simp add: adder_ok_def n_def)
  have "(2::int) ^ nat (width increment - 1) \<le> 2 ^ n"
    using w2 by (simp add: power_increasing)
  then have i: "- (2 ^ n - 1) \<le> get_significand increment"
      "get_significand increment \<le> 2 ^ n - 1"
    using inc unfolding legal_def in_range_def get_significand_def by linarith+
  have a: "- (2 ^ n - 1) \<le> accumulator" "accumulator \<le> 2 ^ n - 1"
    using acc by (simp_all add: in_range_def n_def)
  have xr: "- (2 ^ Suc n) \<le> x" "x < 2 ^ Suc n"
    unfolding x_def using a i pn by linarith+
  have sa: "to_signed b accumulator = accumulator"
    by (rule to_signed_id) (use p bpos a in linarith)+
  have sx: "to_signed b x = x"
    by (rule to_signed_id) (use p bpos xr in linarith)+
  then have sx': "signed_take_bit (b - 1) x = x"
    by (simp add: to_signed_def)
  have um: "to_unsigned b (MAX_SIGNIFICAND_VALUE width1) = mask n"
    unfolding MAX_SIGNIFICAND_VALUE_eq [OF w] n_def [symmetric] mask_eq_exp_minus_1
    by (rule to_unsigned_id) (use p in linarith)+
  have fits: "fits_twos_complement width1 x \<longleftrightarrow> - (2 ^ n) \<le> x \<and> x < 2 ^ n"
    by (auto simp: fits_twos_complement_def n_def)
  have test: "(take_bit b x AND take_bit b (NOT (mask n)) = 0
          \<or> take_bit b x AND take_bit b (NOT (mask n)) = take_bit b (NOT (mask n)))
         \<longleftrightarrow> fits_twos_complement width1 x"
    unfolding fits by (rule sign_mask_test) (use nb bpos in simp, rule sx')
  show ?thesis
    unfolding exact_adder_def Let_def b1 b_def [symmetric] sa x_def [symmetric] sx um
    using test by (auto simp: to_unsigned_def)
qed

lemma exact_adder_examples:
  "exact_adder 12 100 \<lparr>width = 8, place = 0, significand = 10\<rparr> = Inr 110"
  "exact_adder 12 2000 \<lparr>width = 8, place = 0, significand = 50\<rparr> = Inl Overflow"
  "exact_adder 12 (- 2000) \<lparr>width = 8, place = 0, significand = - 50\<rparr> = Inl Overflow"
  by code_simp+

text \<open>
  C7.  \<open>exact_adder<WIDTH1>\<close> is to return the exact sum when it fits in \<open>WIDTH1\<close> bits and to
  raise \<open>std::range_error\<close> exactly when it does not.  The comment in the function says that
  \<open>result\<close> "has the exact value because it has WIDTH1 + 1 bits", but the sum is computed in
  \<open>significand_t<WIDTH1>\<close> before it is widened.  With \<open>WIDTH1 = 32\<close> that type has 32 bits:
  for the accumulator 2^31 - 1 and the increment 1 the sum 2^31 does not fit, and the function
  returns -2^31 without raising.  With \<open>WIDTH1 = 64\<close> the same happens whatever the width of
  \<open>std::int_fast32_t\<close>: for the accumulator 2^63 - 1 and the increment 1 the function returns
  -2^63.
\<close>

theorem exact_adder_misses_overflow:
  "in_range 32 2147483647
   \<and> legal \<lparr>width = 8, place = 0, significand = 1\<rparr>
   \<and> adder_ok 32 \<lparr>width = 8, place = 0, significand = 1\<rparr>
   \<and> \<not> fits_twos_complement 32
        (2147483647 + get_significand \<lparr>width = 8, place = 0, significand = 1\<rparr>)
   \<and> exact_adder 32 2147483647 \<lparr>width = 8, place = 0, significand = 1\<rparr>
        = Inr (- 2147483648)
   \<and> in_range 64 9223372036854775807
   \<and> adder_ok 64 \<lparr>width = 8, place = 0, significand = 1\<rparr>
   \<and> \<not> fits_twos_complement 64
        (9223372036854775807 + get_significand \<lparr>width = 8, place = 0, significand = 1\<rparr>)
   \<and> exact_adder 64 9223372036854775807 \<lparr>width = 8, place = 0, significand = 1\<rparr>
        = Inr (- 9223372036854775808)"
proof -
  let ?i = "\<lparr>width = 8, place = 0, significand = 1\<rparr>"
  have h0: "in_range 32 2147483647" by (simp add: in_range_def)
  have h1: "legal ?i"
    by (simp add: legal_def valid_type_def in_range_def MIN_BIT_WIDTH_def MAX_BIT_WIDTH_def
        MIN_LSB_PLACE_def MAX_MSB_PLACE_def)
  have h2: "adder_ok 32 ?i" by (simp add: adder_ok_def)
  have h3: "\<not> fits_twos_complement 32 (2147483647 + get_significand ?i)"
    by (simp add: fits_twos_complement_def get_significand_def)
  have v: "exact_adder 32 2147483647 ?i = Inr (- 2147483648)" by code_simp
  have g0: "in_range 64 9223372036854775807" by (simp add: in_range_def)
  have g2: "adder_ok 64 ?i" by (simp add: adder_ok_def)
  have g3: "\<not> fits_twos_complement 64 (9223372036854775807 + get_significand ?i)"
    by (simp add: fits_twos_complement_def get_significand_def)
  have u: "exact_adder 64 9223372036854775807 ?i = Inr (- 9223372036854775808)" by code_simp
  show ?thesis by (intro conjI h0 h1 h2 h3 v g0 g2 g3 u)
qed

section \<open>Exact arithmetic\<close>

lemma valid_type_width: "valid_type w p \<Longrightarrow> 2 \<le> w \<and> w \<le> 54"
  by (simp add: valid_type_def MIN_BIT_WIDTH_def MAX_BIT_WIDTH_def)

lemma storage_holds_width:
  assumes "1 \<le> w" "w \<le> 64"
  shows "(2::int) ^ nat (w - 1) \<le> 2 ^ (sig_bits w - 1)"
  using assms by (intro power_increasing) (auto simp: sig_bits_def)

lemma scaled_bound:
  fixes s :: int
  assumes "- (2 ^ m - 1) \<le> s" "s \<le> 2 ^ m - 1"
  shows "- (2 ^ (m + d) - 2 ^ d) \<le> s * 2 ^ d" "s * 2 ^ d \<le> 2 ^ (m + d) - 2 ^ d"
proof -
  have e: "(2 ^ m - 1) * 2 ^ d = (2::int) ^ (m + d) - 2 ^ d"
    by (simp add: power_add algebra_simps)
  have "s * 2 ^ d \<le> (2 ^ m - 1) * 2 ^ d"
    using assms(2) by (intro mult_right_mono) simp_all
  then show "s * 2 ^ d \<le> 2 ^ (m + d) - 2 ^ d" by (simp only: e)
  have "- (2 ^ m - 1) * 2 ^ d \<le> s * 2 ^ d"
    using assms(1) by (intro mult_right_mono) simp_all
  then show "- (2 ^ (m + d) - 2 ^ d) \<le> s * 2 ^ d"
    using e by (simp only: mult_minus_left)
qed

text \<open>The converting constructor is exact.\<close>

lemma FixedPoint_from_exact:
  assumes src: "legal src" and ty: "valid_type w p"
    and nar: "narrower w p (width src) (place src)"
  shows "significand (FixedPoint_from w p src) = significand src * 2 ^ nat (place src - p)"
    and "in_range w (significand (FixedPoint_from w p src))"
proof -
  define d where "d = nat (place src - p)"
  define m where "m = nat (width src - 1)"
  define b where "b = sig_bits w"
  define s where "s = significand src"
  have ws: "2 \<le> width src" and w: "2 \<le> w" "w \<le> 54"
    using src ty valid_type_width by (auto simp: legal_def)
  have md: "m + d \<le> nat (w - 1)"
    using nar ws unfolding narrower_def m_def d_def by linarith
  have sb: "(2::int) ^ nat (w - 1) \<le> 2 ^ (b - 1)"
    unfolding b_def using w by (intro storage_holds_width) simp_all
  have bpos: "0 < b" by (simp add: b_def sig_bits_def)
  have pmd: "(2::int) ^ (m + d) \<le> 2 ^ nat (w - 1)"
    using md by (rule power_increasing) simp
  have pm: "(2::int) ^ m \<le> 2 ^ (m + d)" "(2::int) ^ d \<le> 2 ^ (m + d)"
    by (simp_all add: power_increasing)
  have pos: "(0::int) < 2 ^ d" "(0::int) < 2 ^ m" by simp_all
  have "Suc d \<le> m + d" using ws by (simp add: m_def)
  then have "(2::int) ^ Suc d \<le> 2 ^ (m + d)" by (rule power_increasing) simp
  then have pd: "2 * (2::int) ^ d \<le> 2 ^ (m + d)" by simp
  have one: "(1::int) \<le> 2 ^ d" by simp
  have sr: "- (2 ^ m - 1) \<le> s" "s \<le> 2 ^ m - 1"
    using src by (simp_all add: legal_def in_range_def m_def s_def)
  note sc = scaled_bound [OF sr, of d]
  have c1: "to_signed b s = s"
    by (rule to_signed_id) (use bpos sr pm pmd sb in linarith)+
  have c2: "to_signed b (push_bit d 1) = 2 ^ d"
    unfolding push_bit_eq_mult mult_1
    by (rule to_signed_id) (use bpos pos pd pmd sb in linarith)+
  have c3: "to_signed b (s * 2 ^ d) = s * 2 ^ d"
    by (rule to_signed_id) (use bpos sc one pmd sb in linarith)+
  show e: "significand (FixedPoint_from w p src) = significand src * 2 ^ nat (place src - p)"
    unfolding FixedPoint_from_def b_def [symmetric] d_def [symmetric] s_def [symmetric] c1 c2 c3
    by simp
  show "in_range w (significand (FixedPoint_from w p src))"
    unfolding e in_range_def d_def [symmetric] s_def [symmetric]
    using sc one pmd by linarith
qed

lemma FixedPoint_from_type [simp]:
  "width (FixedPoint_from w p src) = w" "place (FixedPoint_from w p src) = p"
  by (simp_all add: FixedPoint_from_def)

lemma real_value_scaled:
  assumes "q \<le> p"
  shows "of_int (s * 2 ^ nat (p - q)) * 2 powi q = (of_int s * 2 powi p :: real)"
proof -
  have "(2::real) powi p = 2 powi (int (nat (p - q)) + q)"
    using assms by simp
  also have "\<dots> = 2 powi (int (nat (p - q))) * 2 powi q"
    by (rule power_int_add) simp
  also have "\<dots> = 2 ^ nat (p - q) * 2 powi q"
    by (simp only: power_int_of_nat)
  finally show ?thesis by simp
qed


lemma add_bound_core:
  fixes sa sb :: int
  assumes a: "- (2 ^ ma - 1) \<le> sa" "sa \<le> 2 ^ ma - 1"
    and b: "- (2 ^ mb - 1) \<le> sb" "sb \<le> 2 ^ mb - 1"
    and R: "R = (if mb \<le> d then ma + d else max (ma + d) mb + 1)"
  shows "- (2 ^ R - 1) \<le> sa * 2 ^ d + sb \<and> sa * 2 ^ d + sb \<le> 2 ^ R - 1"
proof (cases "mb \<le> d")
  case True
  then have pw: "(2::int) ^ mb \<le> 2 ^ d" by (intro power_increasing) simp_all
  note sc = scaled_bound [OF a, of d]
  have R': "R = ma + d" using True R by simp
  show ?thesis unfolding R' using pw sc b by linarith
next
  case False
  then have R': "R = Suc (max (ma + d) mb)" using R by simp
  have "(2::int) ^ (ma + d) \<le> 2 ^ max (ma + d) mb" "(2::int) ^ mb \<le> 2 ^ max (ma + d) mb"
    by (intro power_increasing; simp)+
  moreover note scaled_bound [OF a, of d]
  moreover have "(0::int) < 2 ^ d" by simp
  ultimately show ?thesis using b unfolding R' power_Suc by linarith
qed

lemma addition_sum_in_range:
  assumes wa: "2 \<le> wa" and wb: "2 \<le> wb" and sa: "in_range wa sa" and sb: "in_range wb sb"
  shows "in_range (fst (addition_result_t wa pa wb pb))
           (sa * 2 ^ nat (pa - min pa pb) + sb * 2 ^ nat (pb - min pa pb))"
proof (cases "pb \<le> pa")
  case True
  define d where "d = nat (pa - pb)"
  have R: "nat (fst (addition_result_t wa pa wb pb) - 1)
      = (if nat (wb - 1) \<le> d then nat (wa - 1) + d else max (nat (wa - 1) + d) (nat (wb - 1)) + 1)"
    using True wa wb unfolding addition_result_t_def superset_width_def d_def
    by (simp split: if_splits) linarith
  have m: "min pa pb = pb" using True by simp
  from add_bound_core [OF sa [unfolded in_range_def, THEN conjunct1]
      sa [unfolded in_range_def, THEN conjunct2]
      sb [unfolded in_range_def, THEN conjunct1]
      sb [unfolded in_range_def, THEN conjunct2] R]
  show ?thesis
    unfolding in_range_def m d_def by simp
next
  case False
  define d where "d = nat (pb - pa)"
  have R: "nat (fst (addition_result_t wa pa wb pb) - 1)
      = (if nat (wa - 1) \<le> d then nat (wb - 1) + d else max (nat (wb - 1) + d) (nat (wa - 1)) + 1)"
    using False wa wb unfolding addition_result_t_def superset_width_def d_def
    by (simp split: if_splits) linarith
  have m: "min pa pb = pa" using False by simp
  from add_bound_core [OF sb [unfolded in_range_def, THEN conjunct1]
      sb [unfolded in_range_def, THEN conjunct2]
      sa [unfolded in_range_def, THEN conjunct1]
      sa [unfolded in_range_def, THEN conjunct2] R]
  show ?thesis
    unfolding in_range_def m d_def by (simp add: add.commute)
qed

lemma in_range_neg: "in_range w s \<Longrightarrow> in_range w (- s)"
  by (simp add: in_range_def)

lemma addition_result_narrower:
  assumes "2 \<le> wa" "2 \<le> wb"
  shows "narrower (fst (addition_result_t wa pa wb pb)) (snd (addition_result_t wa pa wb pb)) wa pa"
    and "narrower (fst (addition_result_t wa pa wb pb)) (snd (addition_result_t wa pa wb pb)) wb pb"
  using assms by (auto simp: narrower_def addition_result_t_def superset_width_def)


lemma operator_plus_minus_exact:
  assumes a: "legal x" and b: "legal op2"
    and ty: "valid_type (fst (addition_result_t (width x) (place x) (width op2) (place op2)))
               (snd (addition_result_t (width x) (place x) (width op2) (place op2)))"
  defines "rp \<equiv> min (place x) (place op2)"
  shows "significand (operator_plus x op2)
           = significand x * 2 ^ nat (place x - rp) + significand op2 * 2 ^ nat (place op2 - rp)"
    and "significand (operator_minus x op2)
           = significand x * 2 ^ nat (place x - rp) - significand op2 * 2 ^ nat (place op2 - rp)"
    and "legal (operator_plus x op2)" and "legal (operator_minus x op2)"
    and "place (operator_plus x op2) = rp" and "place (operator_minus x op2) = rp"
proof -
  define rw where "rw = fst (addition_result_t (width x) (place x) (width op2) (place op2))"
  have art: "addition_result_t (width x) (place x) (width op2) (place op2) = (rw, rp)"
    by (simp add: rw_def rp_def addition_result_t_def)
  have ty': "valid_type rw rp" using ty by (simp add: art)
  have wa: "2 \<le> width x" and wb: "2 \<le> width op2"
    using a b valid_type_width by (auto simp: legal_def)
  have ra: "in_range (width x) (significand x)" and rb: "in_range (width op2) (significand op2)"
    using a b by (simp_all add: legal_def)
  have na: "narrower rw rp (width x) (place x)" and nb: "narrower rw rp (width op2) (place op2)"
    using addition_result_narrower [OF wa wb, of "place x" "place op2"] by (simp_all add: art)
  note ea = FixedPoint_from_exact(1) [OF a ty' na]
  note eb = FixedPoint_from_exact(1) [OF b ty' nb]
  have rwb: "1 \<le> rw" "rw \<le> 64"
    using valid_type_width [OF ty'] by simp_all
  have sum: "in_range rw (significand x * 2 ^ nat (place x - rp)
      + significand op2 * 2 ^ nat (place op2 - rp))"
    using addition_sum_in_range [OF wa wb ra rb, of "place x" "place op2"]
    by (simp add: art rp_def)
  have diff: "in_range rw (significand x * 2 ^ nat (place x - rp)
      - significand op2 * 2 ^ nat (place op2 - rp))"
    using addition_sum_in_range [OF wa wb ra in_range_neg [OF rb], of "place x" "place op2"]
    by (simp add: art rp_def)
  show p: "significand (operator_plus x op2)
           = significand x * 2 ^ nat (place x - rp) + significand op2 * 2 ^ nat (place op2 - rp)"
    unfolding operator_plus_def art Let_def
    by (simp add: ea eb to_signed_in_range [OF rwb sum])
  show m: "significand (operator_minus x op2)
           = significand x * 2 ^ nat (place x - rp) - significand op2 * 2 ^ nat (place op2 - rp)"
    unfolding operator_minus_def art Let_def
    by (simp add: ea eb to_signed_in_range [OF rwb diff])
  have tp: "width (operator_plus x op2) = rw" "place (operator_plus x op2) = rp"
    by (simp_all add: operator_plus_def art Let_def)
  have tm: "width (operator_minus x op2) = rw" "place (operator_minus x op2) = rp"
    by (simp_all add: operator_minus_def art Let_def)
  show "legal (operator_plus x op2)"
    unfolding legal_def tp p using ty' sum by simp
  show "legal (operator_minus x op2)"
    unfolding legal_def tm m using ty' diff by simp
  show "place (operator_plus x op2) = rp" "place (operator_minus x op2) = rp"
    by (rule tp tm)+
qed

lemma times_bound:
  fixes sa sb :: int
  assumes "- (2 ^ ma - 1) \<le> sa" "sa \<le> 2 ^ ma - 1" "- (2 ^ mb - 1) \<le> sb" "sb \<le> 2 ^ mb - 1"
  shows "- (2 ^ (ma + mb) - 1) \<le> sa * sb \<and> sa * sb \<le> 2 ^ (ma + mb) - 1"
proof -
  have "\<bar>sa\<bar> \<le> 2 ^ ma - 1" "\<bar>sb\<bar> \<le> 2 ^ mb - 1"
    using assms by linarith+
  then have "\<bar>sa\<bar> * \<bar>sb\<bar> \<le> (2 ^ ma - 1) * (2 ^ mb - 1)"
    by (intro mult_mono) simp_all
  also have "\<dots> = 2 ^ (ma + mb) - 2 ^ ma - 2 ^ mb + 1"
    by (simp add: power_add algebra_simps)
  also have "\<dots> \<le> 2 ^ (ma + mb) - 1"
  proof -
    have "(1::int) \<le> 2 ^ ma" "(1::int) \<le> 2 ^ mb" by simp_all
    then show ?thesis by linarith
  qed
  finally have "\<bar>sa * sb\<bar> \<le> 2 ^ (ma + mb) - 1"
    by (simp add: abs_mult)
  then show ?thesis by linarith
qed

lemma operator_times_exact:
  assumes a: "legal x" and b: "legal op2"
    and ty: "valid_type (width x + width op2 - 1) (place x + place op2)"
  shows "significand (operator_times x op2) = significand x * significand op2"
    and "legal (operator_times x op2)"
proof -
  define rw where "rw = width x + width op2 - 1"
  define ma where "ma = nat (width x - 1)"
  define mb where "mb = nat (width op2 - 1)"
  define bb where "bb = sig_bits rw"
  have wa: "2 \<le> width x" and wb: "2 \<le> width op2"
    using a b valid_type_width by (auto simp: legal_def)
  have rwb: "1 \<le> rw" "rw \<le> 64"
    using valid_type_width [OF ty] by (simp_all add: rw_def)
  have m: "nat (rw - 1) = ma + mb"
    using wa wb by (simp add: rw_def ma_def mb_def)
  have ra: "- (2 ^ ma - 1) \<le> significand x" "significand x \<le> 2 ^ ma - 1"
    and rb: "- (2 ^ mb - 1) \<le> significand op2" "significand op2 \<le> 2 ^ mb - 1"
    using a b by (simp_all add: legal_def in_range_def ma_def mb_def)
  have pa: "(2::int) ^ ma \<le> 2 ^ (ma + mb)" "(2::int) ^ mb \<le> 2 ^ (ma + mb)"
    by (simp_all add: power_increasing)
  have ia: "in_range rw (significand x)" and ib: "in_range rw (significand op2)"
    unfolding in_range_def m using ra rb pa by linarith+
  have prod: "in_range rw (significand x * significand op2)"
    unfolding in_range_def m by (rule times_bound [OF ra rb])
  show e: "significand (operator_times x op2) = significand x * significand op2"
    unfolding operator_times_def Let_def rw_def [symmetric]
    by (simp add: to_signed_in_range [OF rwb ia] to_signed_in_range [OF rwb ib]
        to_signed_in_range [OF rwb prod])
  have t: "width (operator_times x op2) = rw" "place (operator_times x op2) = place x + place op2"
    by (simp_all add: operator_times_def Let_def rw_def)
  show "legal (operator_times x op2)"
    unfolding legal_def t e using ty prod by (simp add: rw_def)
qed

text \<open>
  C1.  For operands \<open>a\<close> and \<open>b\<close> holding legal significands, the value of \<open>a + b\<close>,
  \<open>a - b\<close> and \<open>a * b\<close>, each at its derived result type, is exactly the sum, the difference
  and the product of the values of \<open>a\<close> and \<open>b\<close>: nothing is rounded, clamped or wrapped.  The
  result type has to pass the static assertions of the class, or the expression does not compile.
\<close>

theorem arithmetic_exact:
  assumes "legal a" and "legal b"
  shows "(valid_type (fst (addition_result_t (width a) (place a) (width b) (place b)))
            (snd (addition_result_t (width a) (place a) (width b) (place b)))
          \<longrightarrow> real_value (operator_plus a b) = real_value a + real_value b
            \<and> real_value (operator_minus a b) = real_value a - real_value b)
       \<and> (valid_type (width a + width b - 1) (place a + place b)
          \<longrightarrow> real_value (operator_times a b) = real_value a * real_value b)"
proof (intro conjI impI)
  assume ty: "valid_type (fst (addition_result_t (width a) (place a) (width b) (place b)))
            (snd (addition_result_t (width a) (place a) (width b) (place b)))"
  define rp where "rp = min (place a) (place b)"
  note pm = operator_plus_minus_exact [OF assms ty, folded rp_def]
  have sa: "of_int (significand a * 2 ^ nat (place a - rp)) * 2 powi rp = real_value a"
    unfolding real_value_def by (rule real_value_scaled) (simp add: rp_def)
  have sb: "of_int (significand b * 2 ^ nat (place b - rp)) * 2 powi rp = real_value b"
    unfolding real_value_def by (rule real_value_scaled) (simp add: rp_def)
  have "real_value (operator_plus a b)
      = of_int (significand a * 2 ^ nat (place a - rp)) * 2 powi rp
        + of_int (significand b * 2 ^ nat (place b - rp)) * 2 powi rp"
    unfolding real_value_def pm(1) pm(5) by (simp only: of_int_add distrib_right)
  then show "real_value (operator_plus a b) = real_value a + real_value b"
    by (simp only: sa sb)
  have "real_value (operator_minus a b)
      = of_int (significand a * 2 ^ nat (place a - rp)) * 2 powi rp
        - of_int (significand b * 2 ^ nat (place b - rp)) * 2 powi rp"
    unfolding real_value_def pm(2) pm(6) by (simp only: of_int_diff left_diff_distrib)
  then show "real_value (operator_minus a b) = real_value a - real_value b"
    by (simp only: sa sb)
next
  assume ty: "valid_type (width a + width b - 1) (place a + place b)"
  have p: "place (operator_times a b) = place a + place b"
    by (simp add: operator_times_def Let_def)
  have "(2::real) powi (place a + place b) = 2 powi place a * 2 powi place b"
    by (rule power_int_add) simp
  then show "real_value (operator_times a b) = real_value a * real_value b"
    unfolding real_value_def operator_times_exact(1) [OF assms ty] p by simp
qed


theorem arithmetic_exact_witness:
  "legal \<lparr>width = 8, place = - 4, significand = 50\<rparr>
   \<and> legal \<lparr>width = 7, place = - 5, significand = - 33\<rparr>
   \<and> valid_type (fst (addition_result_t 8 (- 4) 7 (- 5))) (snd (addition_result_t 8 (- 4) 7 (- 5)))
   \<and> valid_type (8 + 7 - 1) (- 4 + - 5)
   \<and> real_value (operator_plus \<lparr>width = 8, place = - 4, significand = 50\<rparr>
                                  \<lparr>width = 7, place = - 5, significand = - 33\<rparr>)
       = real_value \<lparr>width = 8, place = - 4, significand = 50\<rparr>
         + real_value \<lparr>width = 7, place = - 5, significand = - 33\<rparr>
   \<and> real_value (operator_minus \<lparr>width = 8, place = - 4, significand = 50\<rparr>
                                   \<lparr>width = 7, place = - 5, significand = - 33\<rparr>)
       = real_value \<lparr>width = 8, place = - 4, significand = 50\<rparr>
         - real_value \<lparr>width = 7, place = - 5, significand = - 33\<rparr>
   \<and> real_value (operator_times \<lparr>width = 8, place = - 4, significand = 50\<rparr>
                                   \<lparr>width = 7, place = - 5, significand = - 33\<rparr>)
       = real_value \<lparr>width = 8, place = - 4, significand = 50\<rparr>
         * real_value \<lparr>width = 7, place = - 5, significand = - 33\<rparr>"
proof -
  let ?a = "\<lparr>width = 8, place = - 4, significand = 50\<rparr>"
  let ?b = "\<lparr>width = 7, place = - 5, significand = - 33\<rparr>"
  have h1: "legal ?a"
    by (simp add: legal_def valid_type_def in_range_def MIN_BIT_WIDTH_def MAX_BIT_WIDTH_def
        MIN_LSB_PLACE_def MAX_MSB_PLACE_def)
  have h2: "legal ?b"
    by (simp add: legal_def valid_type_def in_range_def MIN_BIT_WIDTH_def MAX_BIT_WIDTH_def
        MIN_LSB_PLACE_def MAX_MSB_PLACE_def)
  have t1: "valid_type (fst (addition_result_t 8 (- 4) 7 (- 5))) (snd (addition_result_t 8 (- 4) 7 (- 5)))"
    by (simp add: addition_result_t_def superset_width_def valid_type_def MIN_BIT_WIDTH_def
        MAX_BIT_WIDTH_def MIN_LSB_PLACE_def MAX_MSB_PLACE_def)
  have t2: "valid_type (8 + 7 - 1) (- 4 + - 5)"
    by (simp add: valid_type_def MIN_BIT_WIDTH_def MAX_BIT_WIDTH_def MIN_LSB_PLACE_def
        MAX_MSB_PLACE_def)
  note th = arithmetic_exact [OF h1 h2, simplified fixed.simps]
  note pm = th [THEN conjunct1, THEN mp, OF t1]
  note ti = th [THEN conjunct2, THEN mp, OF t2]
  show ?thesis
    by (intro conjI h1 h2 t1 t2 pm [THEN conjunct1] pm [THEN conjunct2] ti)
qed

lemma arithmetic_examples:
  "operator_plus \<lparr>width = 8, place = - 4, significand = 50\<rparr>
                 \<lparr>width = 7, place = - 5, significand = - 33\<rparr>
     = \<lparr>width = 10, place = - 5, significand = 67\<rparr>"
  "operator_minus \<lparr>width = 8, place = - 4, significand = 50\<rparr>
                  \<lparr>width = 7, place = - 5, significand = - 33\<rparr>
     = \<lparr>width = 10, place = - 5, significand = 133\<rparr>"
  "operator_times \<lparr>width = 8, place = - 4, significand = 50\<rparr>
                  \<lparr>width = 7, place = - 5, significand = - 33\<rparr>
     = \<lparr>width = 14, place = - 9, significand = - 1650\<rparr>"
  by code_simp+

section \<open>Construction from a double\<close>

lemma valid_type_8_0: "valid_type 8 0"
  by (simp add: valid_type_def MIN_BIT_WIDTH_def MAX_BIT_WIDTH_def MIN_LSB_PLACE_def
      MAX_MSB_PLACE_def)

lemma limit_precision_eq:
  assumes "1 \<le> w" "w \<le> 64"
  shows "limit_precision r w p
    = of_int (if r > 2 ^ nat (w - 1) - 1 then 2 ^ nat (w - 1) - 1
              else if r < - (2 ^ nat (w - 1) - 1) then - (2 ^ nat (w - 1) - 1)
              else r) * 2 powi p"
proof -
  define n where "n = nat (w - 1)"
  have nb: "n \<le> 64 - 1" and bpos: "0 < (64::nat)"
    using assms by (auto simp: n_def)
  note p = pow2_facts [OF nb bpos]
  have a: "to_unsigned 64 (push_bit n 1) = 2 ^ n"
    unfolding push_bit_eq_mult mult_1
    by (rule to_unsigned_id) (use p in linarith)+
  have b': "to_unsigned 64 (2 ^ n - 1) = 2 ^ n - 1"
    by (rule to_unsigned_id) (use p in linarith)+
  have c: "to_signed 64 (2 ^ n - 1) = 2 ^ n - 1"
    by (rule to_signed_id) (use p bpos in linarith)+
  show ?thesis
    unfolding limit_precision_def Let_def n_def [symmetric] a b' c ..
qed

text \<open>
  Where the rounded value fits the type of the significand, the constructor followed by the
  conversion to \<open>double\<close> returns what \<open>limit_precision\<close> returns.
\<close>

lemma from_double_within_storage:
  assumes ty: "valid_type w p"
    and fits: "- (2 ^ (sig_bits w - 1)) \<le> r" "r < 2 ^ (sig_bits w - 1)"
  shows "real_value (FixedPoint_of_rounded w p r) = limit_precision r w p"
proof -
  have w: "1 \<le> w" "w \<le> 64" using valid_type_width [OF ty] by simp_all
  have pos: "0 < sig_bits w" by (simp add: sig_bits_def)
  have id: "to_signed (sig_bits w) r = r" by (rule to_signed_id [OF pos fits])
  have "to_significand w r = clamp w r"
    using fits by (simp add: to_significand_def)
  also have "\<dots> = (if r > 2 ^ nat (w - 1) - 1 then 2 ^ nat (w - 1) - 1
              else if r < - (2 ^ nat (w - 1) - 1) then - (2 ^ nat (w - 1) - 1)
              else r)"
    unfolding clamp_def Let_def id MAX_SIGNIFICAND_VALUE_eq [OF w]
      MIN_SIGNIFICAND_VALUE_eq [OF w] ..
  finally show ?thesis
    unfolding limit_precision_eq [OF w]
    by (simp add: real_value_def FixedPoint_of_rounded_def)
qed

lemma from_double_examples:
  "real_value (FixedPoint_of_rounded 8 (- 3) 100) = 12.5"
  "limit_precision 100 8 (- 3) = 12.5"
  "real_value (FixedPoint_of_rounded 8 (- 3) 200) = 15.875"
  "limit_precision 200 8 (- 3) = 15.875"
proof -
  have s: "to_significand 8 100 = 100" "to_significand 8 200 = 127" by code_simp+
  show "real_value (FixedPoint_of_rounded 8 (- 3) 100) = 12.5"
    "real_value (FixedPoint_of_rounded 8 (- 3) 200) = 15.875"
    by (simp_all add: real_value_def FixedPoint_of_rounded_def s power_int_minus)
  show "limit_precision 100 8 (- 3) = 12.5" "limit_precision 200 8 (- 3) = 15.875"
    using limit_precision_eq [of 8 100 "- 3"] limit_precision_eq [of 8 200 "- 3"]
    by (simp_all add: power_int_minus)
qed

text \<open>
  C3.  Constructing \<open>FixedPoint<width, place>\<close> from a double \<open>d\<close> and converting the result
  back is to give exactly \<open>limit_precision(d, width, place)\<close>, for every \<open>d\<close>; the constructor
  is documented to round and clamp "in the same manner of limit_precision()".
  \<open>limit_precision\<close> clamps the rounded \<open>double\<close> itself, whereas \<open>to_significand\<close> hands it
  to \<open>clamp\<close>, whose parameter is a \<open>significand_t<WIDTH>\<close>: the value is converted to the
  integer type first and clamped afterwards.  The double nearest to 10^30 is the whole number
  1000000000000000019884624838656, which no integer type holds: \<open>FixedPoint<8, 0>\<close> constructed
  from it has the value -127, and \<open>limit_precision\<close> returns 127.  The same happens for
  2^63 at width 40, where the significand has 64 bits whatever the width of
  \<open>std::int_fast32_t\<close>.
\<close>

theorem from_double_parts_from_limit_precision:
  "valid_type 8 0
   \<and> real_value (FixedPoint_of_rounded 8 0 1000000000000000019884624838656) = - 127
   \<and> limit_precision 1000000000000000019884624838656 8 0 = 127
   \<and> valid_type 40 0
   \<and> real_value (FixedPoint_of_rounded 40 0 (2 ^ 63)) = - 549755813887
   \<and> limit_precision (2 ^ 63) 40 0 = 549755813887"
proof -
  have t8: "valid_type 8 0"
    by (simp add: valid_type_def MIN_BIT_WIDTH_def MAX_BIT_WIDTH_def MIN_LSB_PLACE_def
        MAX_MSB_PLACE_def)
  have t40: "valid_type 40 0"
    by (simp add: valid_type_def MIN_BIT_WIDTH_def MAX_BIT_WIDTH_def MIN_LSB_PLACE_def
        MAX_MSB_PLACE_def)
  have s8: "to_significand 8 1000000000000000019884624838656 = - 127" by code_simp
  have s40: "to_significand 40 9223372036854775808 = - 549755813887" by code_simp
  have c8: "real_value (FixedPoint_of_rounded 8 0 1000000000000000019884624838656) = - 127"
    by (simp add: real_value_def FixedPoint_of_rounded_def s8)
  have c40: "real_value (FixedPoint_of_rounded 40 0 (2 ^ 63)) = - 549755813887"
    by (simp add: real_value_def FixedPoint_of_rounded_def s40)
  have l8: "limit_precision 1000000000000000019884624838656 8 0 = 127"
    using limit_precision_eq [of 8 1000000000000000019884624838656 0] by simp
  have l40: "limit_precision (2 ^ 63) 40 0 = 549755813887"
    using limit_precision_eq [of 40 "2 ^ 63" 0] by simp
  show ?thesis by (intro conjI t8 c8 l8 t40 c40 l40)
qed

section \<open>The rounding functions\<close>

lemma div_ge: "0 < b \<Longrightarrow> q * b \<le> a \<Longrightarrow> q \<le> a div (b::int)"
  using zdiv_mono1 by fastforce

lemma div_le:
  fixes a b q :: int
  assumes "0 < b" "a < (q + 1) * b"
  shows "a div b \<le> q"
proof -
  have "a \<le> b - 1 + q * b" using assms(2) by (simp add: algebra_simps)
  then have "a div b \<le> (b - 1 + q * b) div b" using assms(1) by (rule zdiv_mono1)
  also have "\<dots> = (b - 1) div b + q" using assms(1) by simp
  also have "(b - 1) div b = 0" using assms(1) by (intro div_pos_pos_trivial) simp_all
  finally show ?thesis by simp
qed

lemma drop_bit_NOT: "drop_bit n (NOT s) = NOT (drop_bit n (s::int))"
  by (rule bit_eqI) (simp add: bit_simps)

lemma sra_floor: "(if s \<ge> 0 then drop_bit n s else - drop_bit n (- (s + 1)) - 1) = (s::int) div 2 ^ n"
proof -
  have "- (s + 1) = NOT s" by (simp add: not_int_def)
  then have "drop_bit n (- (s + 1)) = NOT (drop_bit n s)"
    by (simp only: drop_bit_NOT)
  also have "\<dots> = - drop_bit n s - 1" by (simp only: not_int_def)
  finally have "- drop_bit n (- (s + 1)) - 1 = drop_bit n s" by linarith
  then show ?thesis by (simp only: drop_bit_eq_div if_cancel)
qed

lemma shift_count_id:
  assumes "shift_ok bits count"
  shows "shift_count bits count = nat count"
proof -
  have "nat count < bits" using assms unfolding shift_ok_def by linarith
  then show ?thesis unfolding shift_count_def by (rule mod_less)
qed

lemma round_common_id:
  assumes "lsb_place \<le> place x"
  shows "round_common extra_width lsb_place func x = Inr x"
  using assms by (simp add: round_common_def round_result_t_def max_def)

lemma round_common_shift:
  assumes "place x < lsb_place"
    and "func (to_signed (round_sig_bits (width x) (place x) extra_width lsb_place)
           (significand x)) = Inr s'"
    and "shift_ok (round_sig_bits (width x) (place x) extra_width lsb_place)
           (lsb_place - place x)"
  shows "round_common extra_width lsb_place func x
    = Inr \<lparr>width = fst (round_result_t (width x) (place x) extra_width lsb_place),
           place = lsb_place,
           significand =
             to_signed (sig_bits (fst (round_result_t (width x) (place x) extra_width lsb_place)))
               (s' div 2 ^ nat (lsb_place - place x))\<rparr>"
proof -
  have rp: "snd (round_result_t (width x) (place x) extra_width lsb_place) = lsb_place"
    using assms(1) by (simp add: round_result_t_def)
  show ?thesis
    unfolding round_common_def Let_def case_prod_beta rp shift_count_id [OF assms(3)]
    using assms by (simp add: sra_floor)
qed

lemma round_common_cases:
  assumes "round_common extra_width lsb_place func x = Inr y"
    and "lsb_place \<le> place x
      \<or> shift_ok (round_sig_bits (width x) (place x) extra_width lsb_place)
           (lsb_place - place x)"
  obtains (same) "lsb_place \<le> place x" "y = x"
  | (shifted) s' where "place x < lsb_place"
      "func (to_signed (round_sig_bits (width x) (place x) extra_width lsb_place)
           (significand x)) = Inr s'"
      "shift_ok (round_sig_bits (width x) (place x) extra_width lsb_place)
           (lsb_place - place x)"
      "y = \<lparr>width = fst (round_result_t (width x) (place x) extra_width lsb_place),
           place = lsb_place,
           significand =
             to_signed (sig_bits (fst (round_result_t (width x) (place x) extra_width lsb_place)))
               (s' div 2 ^ nat (lsb_place - place x))\<rparr>"
proof (cases "lsb_place \<le> place x")
  case True
  with assms(1) have "y = x" by (simp add: round_common_id)
  with True show ?thesis by (rule same)
next
  case False
  then have lt: "place x < lsb_place" by simp
  have rp: "snd (round_result_t (width x) (place x) extra_width lsb_place) = lsb_place"
    using lt by (simp add: round_result_t_def)
  let ?rb = "round_sig_bits (width x) (place x) extra_width lsb_place"
  from assms(1) lt obtain s' where f: "func (to_signed ?rb (significand x)) = Inr s'"
    unfolding round_common_def Let_def case_prod_beta rp
    by (cases "func (to_signed ?rb (significand x))") simp_all
  from assms(2) False have ok: "shift_ok ?rb (lsb_place - place x)" by simp
  note e = round_common_shift [where func = func and x = x and lsb_place = lsb_place
      and extra_width = extra_width and s' = s', OF lt f ok]
  from assms(1) e show ?thesis
    by (intro shifted [OF lt f ok]) simp
qed


text \<open>
  A value halfway between two neighbours at place \<open>lsb_place\<close>: the facts about widths,
  shifts and constants that all five tie-breaking functions use.
\<close>

lemma midpoint_storage:
  assumes leg: "legal x" and lt: "place x < lsb_place"
    and mid: "significand x = (2 * k + 1) * 2 ^ nat (lsb_place - place x - 1)"
  defines "H \<equiv> (2::int) ^ nat (lsb_place - place x - 1)"
    and "rb \<equiv> round_sig_bits (width x) (place x) 1 lsb_place"
    and "rw \<equiv> fst (round_result_t (width x) (place x) 1 lsb_place)"
  shows "(2::int) ^ nat (lsb_place - place x) = 2 * H"
    and "to_signed rb (significand x) = significand x"
    and "shift_ok rb (lsb_place - place x)"
    and "shift_ok (sig_bits (width x)) (lsb_place - place x - 1)"
    and "MAX_SIGNIFICAND_VALUE_ok (lsb_place - place x)"
    and "MAX_SIGNIFICAND_VALUE (lsb_place - place x) = H - 1"
    and "to_signed (sig_bits (width x)) (push_bit (nat (lsb_place - place x - 1)) 1) = H"
    and "to_signed rb (push_bit (nat (lsb_place - place x)) 1) = 2 * H"
    and "to_signed rb (significand x + H) = significand x + H"
    and "to_signed rb (significand x + H - 1) = significand x + H - 1"
    and "to_signed (sig_bits rw) k = k"
    and "to_signed (sig_bits rw) (k + 1) = k + 1"
    and "0 < H"
proof -
  define sh where "sh = nat (lsb_place - place x)"
  define m where "m = nat (width x - 1)"
  define s where "s = significand x"
  have w: "2 \<le> width x" "width x \<le> 54"
    using leg valid_type_width by (auto simp: legal_def)
  have sh1: "1 \<le> sh" and shm1: "nat (lsb_place - place x - 1) = sh - 1"
    using lt by (simp_all add: sh_def)
  have Hdef: "H = 2 ^ (sh - 1)" by (simp add: H_def shm1)
  show Hpos: "0 < H" by (simp add: Hdef)
  have "(2::int) ^ sh = 2 ^ Suc (sh - 1)" using sh1 by simp
  then show twoH: "(2::int) ^ nat (lsb_place - place x) = 2 * H"
    by (simp add: Hdef sh_def)
  have sr: "- (2 ^ m - 1) \<le> s" "s \<le> 2 ^ m - 1"
    using leg by (simp_all add: legal_def in_range_def m_def s_def)
  have sk: "s = (2 * k + 1) * H" using mid by (simp add: s_def H_def)
  have "H \<le> \<bar>s\<bar>"
  proof -
    have "1 \<le> \<bar>2 * k + 1\<bar>" by presburger
    then have "1 * H \<le> \<bar>2 * k + 1\<bar> * H"
      using Hpos by (intro mult_right_mono) simp_all
    then show ?thesis using Hpos by (simp add: sk abs_mult)
  qed
  then have Hm: "H < 2 ^ m" using sr by linarith
  then have shm: "sh \<le> m"
    unfolding Hdef using sh1 by (simp add: power_strict_increasing_iff)
  have m1: "nat (width x) = Suc m" "int m = width x - 1"
    using w by (simp_all add: m_def)
  have rwv: "rw = width x - int sh + 1 \<or> (rw = 2 \<and> sh = m)"
    using lt shm w unfolding rw_def round_result_t_def sh_def m_def
    by (simp split: if_splits) linarith
  have rbv: "rb = sig_bits (width x + 1)"
  proof -
    have "rw + max (lsb_place - place x) 0 = width x + 1"
      using rwv lt m1 by (auto simp: sh_def)
    then show ?thesis by (simp add: rb_def rw_def round_sig_bits_def)
  qed
  have rbm: "Suc m \<le> rb - 1" and rbpos: "0 < rb"
    using w by (auto simp: rbv sig_bits_def m_def)
  have prb: "2 * (2::int) ^ m \<le> 2 ^ (rb - 1)"
    using power_increasing [OF rbm, of "2::int"] by simp
  have pw: "(2::int) ^ m \<le> 2 ^ (sig_bits (width x) - 1)"
    unfolding m_def using w by (intro storage_holds_width) simp_all
  have wpos: "0 < sig_bits (width x)" by (simp add: sig_bits_def)
  show "to_signed rb (significand x) = significand x"
    unfolding s_def [symmetric]
    by (rule to_signed_id) (use rbpos sr prb Hpos in linarith)+
  have shrb: "sh < rb" using shm rbm by simp
  show "shift_ok rb (lsb_place - place x)"
    using lt shrb by (simp add: shift_ok_def sh_def)
  have "sh - 1 < m" using sh1 shm by simp
  moreover have "m < sig_bits (width x)" using w by (auto simp: m_def sig_bits_def)
  ultimately have "sh - 1 < sig_bits (width x)" by simp
  then show "shift_ok (sig_bits (width x)) (lsb_place - place x - 1)"
    using lt sh1 by (simp add: shift_ok_def sh_def)
  have shr: "1 \<le> lsb_place - place x" "lsb_place - place x \<le> 64"
    using lt shm w by (simp_all add: sh_def m_def)
  show "MAX_SIGNIFICAND_VALUE_ok (lsb_place - place x)"
    using shr by (simp add: MAX_SIGNIFICAND_VALUE_ok_iff)
  show "MAX_SIGNIFICAND_VALUE (lsb_place - place x) = H - 1"
    by (simp add: MAX_SIGNIFICAND_VALUE_eq [OF shr] H_def)
  show "to_signed (sig_bits (width x)) (push_bit (nat (lsb_place - place x - 1)) 1) = H"
    unfolding push_bit_eq_mult mult_1 H_def [symmetric]
    by (rule to_signed_id) (use wpos Hpos Hm pw in linarith)+
  show "to_signed rb (push_bit (nat (lsb_place - place x)) 1) = 2 * H"
    unfolding push_bit_eq_mult mult_1 twoH
    by (rule to_signed_id) (use rbpos Hpos Hm prb in linarith)+
  show "to_signed rb (significand x + H) = significand x + H"
    unfolding s_def [symmetric]
    by (rule to_signed_id) (use rbpos sr Hpos Hm prb in linarith)+
  show "to_signed rb (significand x + H - 1) = significand x + H - 1"
    unfolding s_def [symmetric]
    by (rule to_signed_id) (use rbpos sr Hpos Hm prb in linarith)+
  have rw1: "nat (rw - 1) = Suc (m - sh)" and rwb: "1 \<le> rw" "rw \<le> 64"
    using rwv shm w m1 by auto
  have "(2::int) ^ m = 2 ^ ((m - sh) + sh)" using shm by simp
  also have "\<dots> = 2 ^ (m - sh) * 2 ^ sh" by (rule power_add)
  finally have split: "(2::int) ^ m = 2 ^ (m - sh) * (2 * H)"
    using twoH by (simp only: sh_def)
  have "(2 * k + 1) * H < (2 * 2 ^ (m - sh)) * H"
    using sr(2) sk split by simp
  then have up: "2 * k + 1 < 2 * 2 ^ (m - sh)"
    using Hpos by (simp only: mult_less_cancel_right_pos)
  have "- (2 * 2 ^ (m - sh)) * H < (2 * k + 1) * H"
    using sr(1) sk split by simp
  then have lo: "- (2 * 2 ^ (m - sh)) < 2 * k + 1"
    using Hpos by (simp only: mult_less_cancel_right_pos)
  have pos': "(0::int) < 2 ^ (m - sh)" by simp
  have ik: "in_range rw k" and ik1: "in_range rw (k + 1)"
    unfolding in_range_def rw1 power_Suc using up lo pos' by linarith+
  show "to_signed (sig_bits rw) k = k"
    by (rule to_signed_in_range [OF rwb ik])
  show "to_signed (sig_bits rw) (k + 1) = k + 1"
    by (rule to_signed_in_range [OF rwb ik1])
qed

lemma midpoint_div:
  fixes k H :: int
  assumes "0 < H"
  shows "((2 * k + 1) * H + H) div (2 * H) = k + 1"
    and "((2 * k + 1) * H + H - 1) div (2 * H) = k"
    and "((2 * k + 1) * H) div (2 * H) = k"
proof -
  have a: "(2 * k + 1) * H + H = (k + 1) * (2 * H)" by (simp add: algebra_simps)
  show "((2 * k + 1) * H + H) div (2 * H) = k + 1"
    unfolding a using assms by simp
  have b: "(2 * k + 1) * H + H - 1 = (2 * H - 1) + k * (2 * H)" by (simp add: algebra_simps)
  have "(2 * H - 1) div (2 * H) = 0"
    using assms by (intro div_pos_pos_trivial) simp_all
  then show "((2 * k + 1) * H + H - 1) div (2 * H) = k"
    unfolding b using assms by simp
  have c: "(2 * k + 1) * H = H + k * (2 * H)" by (simp add: algebra_simps)
  have "H div (2 * H) = 0"
    using assms by (intro div_pos_pos_trivial) simp_all
  then show "((2 * k + 1) * H) div (2 * H) = k"
    unfolding c using assms by simp
qed


lemma midpoint_round_common:
  assumes leg: "legal x" and lt: "place x < lsb_place"
    and mid: "significand x = (2 * k + 1) * 2 ^ nat (lsb_place - place x - 1)"
    and f: "func (significand x) = Inr (significand x + c)"
    and c: "c = 2 ^ nat (lsb_place - place x - 1) \<or> c = 2 ^ nat (lsb_place - place x - 1) - 1"
  shows "round_common 1 lsb_place func x
    = Inr \<lparr>width = fst (round_result_t (width x) (place x) 1 lsb_place),
           place = lsb_place,
           significand = (if c = 2 ^ nat (lsb_place - place x - 1) then k + 1 else k)\<rparr>"
proof -
  define H :: int where "H = 2 ^ nat (lsb_place - place x - 1)"
  note ms = midpoint_storage [OF leg lt mid, folded H_def]
  note md = midpoint_div [OF ms(13), of k]
  have f': "func (to_signed (round_sig_bits (width x) (place x) 1 lsb_place) (significand x))
      = Inr (significand x + c)"
    unfolding ms(2) by (rule f)
  note e = round_common_shift [where func = func and x = x and lsb_place = lsb_place
      and extra_width = 1 and s' = "significand x + c", OF lt f' ms(3)]
  have sk: "significand x = (2 * k + 1) * H" using mid by (simp add: H_def)
  have v: "to_signed (sig_bits (fst (round_result_t (width x) (place x) 1 lsb_place)))
        ((significand x + c) div 2 ^ nat (lsb_place - place x))
      = (if c = H then k + 1 else k)"
  proof (cases "c = H")
    case True
    then show ?thesis unfolding ms(1) sk by (simp add: md(1) ms(12))
  next
    case False
    then have "c = H - 1" using c by (simp add: H_def)
    then have "(2 * k + 1) * H + c = (2 * k + 1) * H + H - 1" by simp
    then have "((2 * k + 1) * H + c) div (2 * H) = k" by (simp only: md(2))
    with False show ?thesis unfolding ms(1) sk by (simp add: ms(11))
  qed
  show ?thesis unfolding e v H_def ..
qed

lemma midpoint_bit:
  fixes k H :: int
  assumes "0 < H" "2 ^ n = 2 * H"
  shows "((2 * k + 1) * H AND 2 * H \<noteq> 0) \<longleftrightarrow> odd k"
proof -
  have "((2 * k + 1) * H AND 2 ^ n = 0) \<longleftrightarrow> \<not> bit ((2 * k + 1) * H) n"
    by (rule and_exp_eq_0_iff_not_bit)
  also have "bit ((2 * k + 1) * H) n \<longleftrightarrow> odd (((2 * k + 1) * H) div 2 ^ n)"
    by (rule bit_iff_odd)
  also have "((2 * k + 1) * H) div 2 ^ n = k"
    unfolding assms(2) by (rule midpoint_div(3) [OF assms(1)])
  finally show ?thesis by (simp add: assms(2))
qed

text \<open>
  C5.  A value exactly halfway between two neighbours at the target place \<open>lsb_place\<close> has
  the significand \<open>(2 * k + 1) * 2 ^ (lsb_place - place - 1)\<close>: its value is
  (k + 1/2) * 2^lsb_place, and its neighbours have the significands \<open>k\<close> and \<open>k + 1\<close> at place
  \<open>lsb_place\<close>.  It is positive when \<open>0 \<le> k\<close> and negative otherwise.  Each tie-breaking
  function returns the neighbour of its policy: \<open>round_half_to_even\<close> the even one,
  \<open>round_half_away_from_zero\<close> the one farther from zero, \<open>round_half_toward_zero\<close> the one
  nearer to zero, \<open>round_half_up\<close> the upper one \<open>k + 1\<close> and \<open>round_half_down\<close> the lower one
  \<open>k\<close>.
\<close>

theorem rounding_midpoint:
  assumes leg: "legal x" and lt: "place x < lsb_place"
    and mid: "significand x = (2 * k + 1) * 2 ^ nat (lsb_place - place x - 1)"
  shows "round_half_to_even lsb_place x
           = Inr \<lparr>width = fst (round_result_t (width x) (place x) 1 lsb_place),
                  place = lsb_place, significand = (if even k then k else k + 1)\<rparr>
    \<and> round_half_away_from_zero lsb_place x
           = Inr \<lparr>width = fst (round_result_t (width x) (place x) 1 lsb_place),
                  place = lsb_place, significand = (if 0 \<le> k then k + 1 else k)\<rparr>
    \<and> round_half_toward_zero lsb_place x
           = Inr \<lparr>width = fst (round_result_t (width x) (place x) 1 lsb_place),
                  place = lsb_place, significand = (if 0 \<le> k then k else k + 1)\<rparr>
    \<and> round_half_up lsb_place x
           = Inr \<lparr>width = fst (round_result_t (width x) (place x) 1 lsb_place),
                  place = lsb_place, significand = k + 1\<rparr>
    \<and> round_half_down lsb_place x
           = Inr \<lparr>width = fst (round_result_t (width x) (place x) 1 lsb_place),
                  place = lsb_place, significand = k\<rparr>"
proof -
  define H :: int where "H = 2 ^ nat (lsb_place - place x - 1)"
  note ms = midpoint_storage [OF leg lt mid, folded H_def]
  note rc = midpoint_round_common [OF leg lt mid, folded H_def]
  have sk: "significand x = (2 * k + 1) * H" using mid by (simp add: H_def)
  have neg: "significand x < 0 \<longleftrightarrow> k < 0"
  proof -
    have "(2 * k + 1) * H < 0 \<longleftrightarrow> 2 * k + 1 < 0"
      using ms(13) by (simp add: mult_less_0_iff)
    then show ?thesis unfolding sk by linarith
  qed
  have odd: "(significand x AND 2 * H \<noteq> 0) \<longleftrightarrow> odd k"
    unfolding sk by (rule midpoint_bit [OF ms(13) ms(1)])
  have nle: "\<not> lsb_place \<le> place x" using lt by simp
  have aux1: "to_signed (round_sig_bits (width x) (place x) 1 lsb_place) (2 * H) = 2 * H"
    using ms(8) unfolding push_bit_eq_mult ms(1) by simp
  have "significand x + (H - 1) = significand x + H - 1" by simp
  then have aux2:
    "to_signed (round_sig_bits (width x) (place x) 1 lsb_place) (significand x + (H - 1))
        = significand x + (H - 1)"
    by (simp only: ms(10))
  have aux3: "to_signed (sig_bits (width x)) H = H"
    using ms(7) unfolding push_bit_eq_mult by (simp add: H_def)
  have aux4: "shift_count (round_sig_bits (width x) (place x) 1 lsb_place) (lsb_place - place x)
      = nat (lsb_place - place x)"
    by (rule shift_count_id [OF ms(3)])
  note aux = aux1 aux2 aux3 aux4
  have even: "round_half_to_even lsb_place x
           = Inr \<lparr>width = fst (round_result_t (width x) (place x) 1 lsb_place),
                  place = lsb_place, significand = (if even k then k else k + 1)\<rparr>"
  proof (cases "even k")
    case True
    show ?thesis
      unfolding round_half_to_even_def
      by (subst rc [where c = "H - 1"])
         (use True nle odd in \<open>simp_all add: Let_def ms aux H_def [symmetric]\<close>)
  next
    case False
    show ?thesis
      unfolding round_half_to_even_def
      by (subst rc [where c = "H"])
         (use False nle odd in \<open>simp_all add: Let_def ms aux H_def [symmetric]\<close>)
  qed
  have away: "round_half_away_from_zero lsb_place x
           = Inr \<lparr>width = fst (round_result_t (width x) (place x) 1 lsb_place),
                  place = lsb_place, significand = (if 0 \<le> k then k + 1 else k)\<rparr>"
  proof (cases "0 \<le> k")
    case True
    show ?thesis
      unfolding round_half_away_from_zero_def
      by (subst rc [where c = "H"])
         (use True nle neg in \<open>simp_all add: Let_def ms aux H_def [symmetric]\<close>)
  next
    case False
    show ?thesis
      unfolding round_half_away_from_zero_def
      by (subst rc [where c = "H - 1"])
         (use False nle neg in \<open>simp_all add: Let_def ms aux H_def [symmetric]\<close>)
  qed
  have toward: "round_half_toward_zero lsb_place x
           = Inr \<lparr>width = fst (round_result_t (width x) (place x) 1 lsb_place),
                  place = lsb_place, significand = (if 0 \<le> k then k else k + 1)\<rparr>"
  proof (cases "0 \<le> k")
    case True
    show ?thesis
      unfolding round_half_toward_zero_def
      by (subst rc [where c = "H - 1"])
         (use True nle neg in \<open>simp_all add: Let_def ms aux H_def [symmetric]\<close>)
  next
    case False
    show ?thesis
      unfolding round_half_toward_zero_def
      by (subst rc [where c = "H"])
         (use False nle neg in \<open>simp_all add: Let_def ms aux H_def [symmetric]\<close>)
  qed
  have up: "round_half_up lsb_place x
           = Inr \<lparr>width = fst (round_result_t (width x) (place x) 1 lsb_place),
                  place = lsb_place, significand = k + 1\<rparr>"
    unfolding round_half_up_def
    by (subst rc [where c = "H"])
       (use nle in \<open>simp_all add: Let_def ms aux H_def [symmetric]\<close>)
  have down: "round_half_down lsb_place x
           = Inr \<lparr>width = fst (round_result_t (width x) (place x) 1 lsb_place),
                  place = lsb_place, significand = k\<rparr>"
    unfolding round_half_down_def
    by (subst rc [where c = "H - 1"])
       (use nle in \<open>simp_all add: Let_def ms aux H_def [symmetric]\<close>)
  show ?thesis by (intro conjI even away toward up down)
qed


theorem rounding_midpoint_witness:
  "legal \<lparr>width = 8, place = - 4, significand = 40\<rparr>
   \<and> place \<lparr>width = 8, place = - 4, significand = 40\<rparr> < 0
   \<and> significand \<lparr>width = 8, place = - 4, significand = 40\<rparr>
       = (2 * 2 + 1) * 2 ^ nat (0 - place \<lparr>width = 8, place = - 4, significand = 40\<rparr> - 1)
   \<and> round_half_to_even 0 \<lparr>width = 8, place = - 4, significand = 40\<rparr>
       = Inr \<lparr>width = 5, place = 0, significand = 2\<rparr>
   \<and> round_half_away_from_zero 0 \<lparr>width = 8, place = - 4, significand = 40\<rparr>
       = Inr \<lparr>width = 5, place = 0, significand = 3\<rparr>
   \<and> round_half_toward_zero 0 \<lparr>width = 8, place = - 4, significand = 40\<rparr>
       = Inr \<lparr>width = 5, place = 0, significand = 2\<rparr>
   \<and> round_half_up 0 \<lparr>width = 8, place = - 4, significand = 40\<rparr>
       = Inr \<lparr>width = 5, place = 0, significand = 3\<rparr>
   \<and> round_half_down 0 \<lparr>width = 8, place = - 4, significand = 40\<rparr>
       = Inr \<lparr>width = 5, place = 0, significand = 2\<rparr>"
proof -
  let ?x = "\<lparr>width = 8, place = - 4, significand = 40\<rparr>"
  have h1: "legal ?x"
    by (simp add: legal_def valid_type_def in_range_def MIN_BIT_WIDTH_def MAX_BIT_WIDTH_def
        MIN_LSB_PLACE_def MAX_MSB_PLACE_def)
  have h2: "place ?x < 0" by simp
  have h3: "significand ?x = (2 * 2 + 1) * 2 ^ nat (0 - place ?x - 1)" by simp
  have rw: "fst (round_result_t 8 (- 4) 1 0) = 5" by (simp add: round_result_t_def)
  note th = rounding_midpoint [OF h1 h2 h3]
  have e: "round_half_to_even 0 ?x = Inr \<lparr>width = 5, place = 0, significand = 2\<rparr>
      \<and> round_half_away_from_zero 0 ?x = Inr \<lparr>width = 5, place = 0, significand = 3\<rparr>
      \<and> round_half_toward_zero 0 ?x = Inr \<lparr>width = 5, place = 0, significand = 2\<rparr>
      \<and> round_half_up 0 ?x = Inr \<lparr>width = 5, place = 0, significand = 3\<rparr>
      \<and> round_half_down 0 ?x = Inr \<lparr>width = 5, place = 0, significand = 2\<rparr>"
    using th by (simp add: rw)
  show ?thesis
    by (intro conjI h1 h2 h3 e [THEN conjunct1] e [THEN conjunct2, THEN conjunct1]
        e [THEN conjunct2, THEN conjunct2, THEN conjunct1]
        e [THEN conjunct2, THEN conjunct2, THEN conjunct2, THEN conjunct1]
        e [THEN conjunct2, THEN conjunct2, THEN conjunct2, THEN conjunct2])
qed

text \<open>The examples of the specification and of the tests.\<close>

lemma tie_breaking_examples:
  "round_half_to_even 0 \<lparr>width = 8, place = - 4, significand = 40\<rparr>
     = Inr \<lparr>width = 5, place = 0, significand = 2\<rparr>"
  "round_half_to_even 0 \<lparr>width = 8, place = - 4, significand = 56\<rparr>
     = Inr \<lparr>width = 5, place = 0, significand = 4\<rparr>"
  "round_half_away_from_zero 0 \<lparr>width = 8, place = - 4, significand = 40\<rparr>
     = Inr \<lparr>width = 5, place = 0, significand = 3\<rparr>"
  "round_half_toward_zero 0 \<lparr>width = 8, place = - 4, significand = - 40\<rparr>
     = Inr \<lparr>width = 5, place = 0, significand = - 2\<rparr>"
  "round_half_up 0 \<lparr>width = 8, place = - 4, significand = - 40\<rparr>
     = Inr \<lparr>width = 5, place = 0, significand = - 2\<rparr>"
  "round_half_down 0 \<lparr>width = 8, place = - 4, significand = - 40\<rparr>
     = Inr \<lparr>width = 5, place = 0, significand = - 3\<rparr>"
  "round_half_up 0 \<lparr>width = 8, place = - 7, significand = 64\<rparr>
     = Inr \<lparr>width = 2, place = 0, significand = 1\<rparr>"
  by code_simp+

text \<open>
  C6, as amended.  When the target place is not coarser than the source place,
  \<open>lsb_place \<le> place\<close>, each of the eight rounding functions returns its argument as it is:
  same width, same place, same significand, hence the same value.
\<close>

theorem rounding_not_coarser_is_identity:
  assumes "lsb_place \<le> place x"
  shows "ceil_fp lsb_place x = Inr x \<and> floor_fp lsb_place x = Inr x
    \<and> trunc_fp lsb_place x = Inr x
    \<and> round_half_to_even lsb_place x = Inr x
    \<and> round_half_away_from_zero lsb_place x = Inr x
    \<and> round_half_toward_zero lsb_place x = Inr x
    \<and> round_half_up lsb_place x = Inr x
    \<and> round_half_down lsb_place x = Inr x"
  unfolding ceil_fp_def floor_fp_def trunc_fp_def round_half_to_even_def
    round_half_away_from_zero_def round_half_toward_zero_def round_half_up_def
    round_half_down_def
  by (intro conjI round_common_id assms)

theorem rounding_not_coarser_is_identity_witness:
  "(- 4::int) \<le> place \<lparr>width = 8, place = - 1, significand = 5\<rparr>
   \<and> round_half_to_even (- 4) \<lparr>width = 8, place = - 1, significand = 5\<rparr>
       = Inr \<lparr>width = 8, place = - 1, significand = 5\<rparr>
   \<and> floor_fp (- 4) \<lparr>width = 8, place = - 1, significand = 5\<rparr>
       = Inr \<lparr>width = 8, place = - 1, significand = 5\<rparr>"
proof -
  have h: "(- 4::int) \<le> place \<lparr>width = 8, place = - 1, significand = 5\<rparr>" by simp
  note th = rounding_not_coarser_is_identity [OF h]
  show ?thesis
    by (intro conjI h th [THEN conjunct2, THEN conjunct2, THEN conjunct2, THEN conjunct1]
        th [THEN conjunct2, THEN conjunct1])
qed

text \<open>
  C6 in the words of the specification, for a target place that is not finer than the source
  place, \<open>lsb_place \<ge> place\<close>, does not hold: 2.5 at place -1 is floored to 2 at place 0.
\<close>

theorem rounding_coarser_target_counterexample:
  "place \<lparr>width = 8, place = - 1, significand = 5\<rparr> \<le> (0::int)
   \<and> legal \<lparr>width = 8, place = - 1, significand = 5\<rparr>
   \<and> floor_fp 0 \<lparr>width = 8, place = - 1, significand = 5\<rparr>
       = Inr \<lparr>width = 8, place = 0, significand = 2\<rparr>
   \<and> real_value \<lparr>width = 8, place = 0, significand = 2\<rparr>
       \<noteq> real_value \<lparr>width = 8, place = - 1, significand = 5\<rparr>"
proof -
  let ?x = "\<lparr>width = 8, place = - 1, significand = 5\<rparr>"
  have h: "place ?x \<le> (0::int)" by simp
  have l: "legal ?x"
    by (simp add: legal_def valid_type_def in_range_def MIN_BIT_WIDTH_def MAX_BIT_WIDTH_def
        MIN_LSB_PLACE_def MAX_MSB_PLACE_def)
  have v: "floor_fp 0 ?x = Inr \<lparr>width = 8, place = 0, significand = 2\<rparr>"
    by code_simp
  have r: "real_value \<lparr>width = 8, place = 0, significand = 2\<rparr> \<noteq> real_value ?x"
    by (simp add: real_value_def)
  show ?thesis by (intro conjI h l v r)
qed

section \<open>The significand invariant\<close>

text \<open>
  The quotient that \<open>round_common\<close> stores is in the range of the result width, whenever the
  biased significand \<open>raw\<close> is within the bounds that the result width was chosen for.
\<close>

lemma shifted_in_range:
  fixes raw :: int
  assumes w: "2 \<le> w" "w \<le> 54" and sh: "0 < sh" and E: "E = 0 \<or> E = 1"
    and rw: "rw = (if w - 1 \<le> int sh then 2 else w + E - int sh)"
    and rb: "rb = sig_bits (rw + int sh)" and ok: "sh < rb"
    and b: "if w - 1 \<le> int sh then - (2 ^ sh) \<le> raw \<and> raw < 2 * 2 ^ sh
            else - (2 ^ nat (w - 1 + E)) + 2 ^ sh \<le> raw \<and> raw < 2 ^ nat (w - 1 + E)"
  shows "in_range rw (to_signed rb raw div 2 ^ sh)"
proof (cases "w - 1 \<le> int sh")
  case True
  then have rw2: "rw = 2" using rw by simp
  have bb: "- (2 ^ sh) \<le> raw" "raw < 2 * 2 ^ sh" using b True by simp_all
  have rbpos: "0 < rb" using ok by simp
  have r: "- (2 ^ sh) \<le> to_signed rb raw \<and> to_signed rb raw < 2 * 2 ^ sh"
  proof (cases "Suc sh \<le> rb - 1")
    case True
    then have "(2::int) ^ Suc sh \<le> 2 ^ (rb - 1)" by (rule power_increasing) simp
    then have p: "2 * (2::int) ^ sh \<le> 2 ^ (rb - 1)" by simp
    have "to_signed rb raw = raw"
      by (rule to_signed_id) (use rbpos bb p in linarith)+
    then show ?thesis using bb by simp
  next
    case False
    then have e: "rb - 1 = sh" using ok by simp
    have "- (2 ^ (rb - 1)) \<le> to_signed rb raw" "to_signed rb raw < 2 ^ (rb - 1)"
      by (simp_all add: to_signed_def)
    then show ?thesis unfolding e by simp
  qed
  have lo: "- 1 \<le> to_signed rb raw div 2 ^ sh"
    by (rule div_ge) (use r in simp_all)
  have hi: "to_signed rb raw div 2 ^ sh \<le> 1"
    by (rule div_le) (use r in simp_all)
  show ?thesis unfolding rw2 in_range_def using lo hi by simp
next
  case False
  define m where "m = nat (w - 1)"
  define e :: nat where "e = (if E = 0 then 0 else 1)"
  have shm: "sh < m" using False w by (simp add: m_def)
  have rwv: "rw = w + E - int sh" using rw False by simp
  have me: "nat (w - 1 + E) = m + e" using E w by (auto simp: m_def e_def)
  have rw1: "nat (rw - 1) = (m - sh) + e" and rwb: "1 \<le> rw" "rw \<le> 64"
    using E w shm by (auto simp: rwv m_def e_def)
  have bb: "- (2 ^ (m + e)) + 2 ^ sh \<le> raw" "raw < 2 ^ (m + e)"
    using b False by (simp_all add: me)
  have "rw + int sh = w + E" by (simp add: rwv)
  then have "m + e \<le> rb - 1"
    using E w unfolding rb by (auto simp: sig_bits_def m_def e_def)
  then have p: "(2::int) ^ (m + e) \<le> 2 ^ (rb - 1)" by (rule power_increasing) simp
  have rbpos: "0 < rb" using ok by simp
  have pos: "(0::int) < 2 ^ sh" by simp
  have id: "to_signed rb raw = raw"
    by (rule to_signed_id) (use rbpos bb p pos in linarith)+
  have "(2::int) ^ (m + e) = 2 ^ ((m - sh + e) + sh)" using shm by simp
  also have "\<dots> = 2 ^ (m - sh + e) * 2 ^ sh" by (rule power_add)
  finally have split: "(2::int) ^ (m + e) = 2 ^ (m - sh + e) * 2 ^ sh" .
  have lo: "- (2 ^ (m - sh + e) - 1) \<le> raw div 2 ^ sh"
  proof (rule div_ge)
    show "(0::int) < 2 ^ sh" by simp
    have "- (2 ^ (m - sh + e) - 1) * 2 ^ sh = - (2 ^ (m + e)) + (2::int) ^ sh"
      unfolding split by (simp add: algebra_simps)
    then show "- (2 ^ (m - sh + e) - 1) * 2 ^ sh \<le> raw" using bb(1) by simp
  qed
  have hi: "raw div 2 ^ sh \<le> 2 ^ (m - sh + e) - 1"
  proof (rule div_le)
    show "(0::int) < 2 ^ sh" by simp
    show "raw < (2 ^ (m - sh + e) - 1 + 1) * 2 ^ sh" using bb(2) unfolding split by simp
  qed
  show ?thesis unfolding in_range_def id rw1 using lo hi by simp
qed


lemma round_arg_unchanged:
  assumes leg: "legal x" and lt: "place x < lsb_place" and E: "E = 0 \<or> E = 1"
  shows "to_signed (round_sig_bits (width x) (place x) E lsb_place) (significand x)
    = significand x"
proof -
  define rb where "rb = round_sig_bits (width x) (place x) E lsb_place"
  have w: "2 \<le> width x" "width x \<le> 54"
    using leg valid_type_width by (auto simp: legal_def)
  have "sig_bits (width x) \<le> rb"
    using w lt E unfolding rb_def round_sig_bits_def round_result_t_def sig_bits_def
    by (auto split: if_splits)
  then have "(2::int) ^ (sig_bits (width x) - 1) \<le> 2 ^ (rb - 1)"
    by (intro power_increasing) simp_all
  moreover have "(2::int) ^ nat (width x - 1) \<le> 2 ^ (sig_bits (width x) - 1)"
    using w by (intro storage_holds_width) simp_all
  ultimately have p: "(2::int) ^ nat (width x - 1) \<le> 2 ^ (rb - 1)" by linarith
  have rbpos: "0 < rb" by (simp add: rb_def round_sig_bits_def sig_bits_def)
  have sr: "- (2 ^ nat (width x - 1) - 1) \<le> significand x"
      "significand x \<le> 2 ^ nat (width x - 1) - 1"
    using leg by (simp_all add: legal_def in_range_def)
  show ?thesis unfolding rb_def [symmetric]
    by (rule to_signed_id) (use rbpos sr p in linarith)+
qed

text \<open>
  The shifts of \<open>round_common\<close> have a meaning in C++ exactly when the target place is less
  than 64 places above the source place.
\<close>

lemma shift_defined_iff:
  assumes "2 \<le> width x" and "place x < lsb_place" and "E = 0 \<or> E = 1"
  shows "shift_ok (round_sig_bits (width x) (place x) E lsb_place) (lsb_place - place x)
    \<longleftrightarrow> lsb_place - place x < 64"
  using assms
  unfolding shift_ok_def round_sig_bits_def round_result_t_def sig_bits_def
  by (auto split: if_splits)

text \<open>
  What \<open>round_common\<close> returns is in the range of its width when its shifts have a meaning,
  the function it is given returns the significand plus a bias, wrapped, and the sum is
  within the bounds of \<open>shifted_in_range\<close>.
\<close>

lemma round_common_in_range:
  assumes leg: "legal x" and E: "E = 0 \<or> E = 1"
    and res: "round_common E lsb_place func x = Inr y"
    and near: "lsb_place - place x < 64"
    and fb: "\<And>s'. place x < lsb_place
        \<Longrightarrow> shift_ok (round_sig_bits (width x) (place x) E lsb_place) (lsb_place - place x)
        \<Longrightarrow> func (significand x) = Inr s'
        \<Longrightarrow> \<exists>raw. s' = to_signed (round_sig_bits (width x) (place x) E lsb_place) raw
              \<and> (if width x - 1 \<le> lsb_place - place x
                   then - (2 ^ nat (lsb_place - place x)) \<le> raw
                        \<and> raw < 2 * 2 ^ nat (lsb_place - place x)
                   else - (2 ^ nat (width x - 1 + E)) + 2 ^ nat (lsb_place - place x) \<le> raw
                        \<and> raw < 2 ^ nat (width x - 1 + E))"
  shows "in_range (width y) (significand y)"
proof -
  have "2 \<le> width x" using leg valid_type_width by (auto simp: legal_def)
  then have "lsb_place \<le> place x
      \<or> shift_ok (round_sig_bits (width x) (place x) E lsb_place) (lsb_place - place x)"
    using shift_defined_iff [OF _ _ E, of x lsb_place] near by fastforce
  with res show ?thesis
  proof (cases rule: round_common_cases)
  case same
  then show ?thesis using leg by (simp add: legal_def)
next
  case (shifted s')
  define sh where "sh = nat (lsb_place - place x)"
  define rb where "rb = round_sig_bits (width x) (place x) E lsb_place"
  define rw where "rw = fst (round_result_t (width x) (place x) E lsb_place)"
  have w: "2 \<le> width x" "width x \<le> 54"
    using leg valid_type_width by (auto simp: legal_def)
  have ish: "int sh = lsb_place - place x" and shpos: "0 < sh"
    using shifted(1) by (simp_all add: sh_def)
  have f: "func (significand x) = Inr s'"
    using shifted(2) unfolding round_arg_unchanged [OF leg shifted(1) E] .
  from fb [OF shifted(1) shifted(3) f] obtain raw where
    s0: "s' = to_signed (round_sig_bits (width x) (place x) E lsb_place) raw"
    and b0: "if width x - 1 \<le> lsb_place - place x
                   then - (2 ^ nat (lsb_place - place x)) \<le> raw
                        \<and> raw < 2 * 2 ^ nat (lsb_place - place x)
                   else - (2 ^ nat (width x - 1 + E)) + 2 ^ nat (lsb_place - place x) \<le> raw
                        \<and> raw < 2 ^ nat (width x - 1 + E)"
    by blast
  have s': "s' = to_signed rb raw" using s0 by (simp only: rb_def)
  have b: "if width x - 1 \<le> int sh then - (2 ^ sh) \<le> raw \<and> raw < 2 * 2 ^ sh
            else - (2 ^ nat (width x - 1 + E)) + 2 ^ sh \<le> raw \<and> raw < 2 ^ nat (width x - 1 + E)"
  proof -
    have "int (nat (lsb_place - place x)) = lsb_place - place x"
      using shifted(1) by simp
    then show ?thesis using b0 unfolding sh_def by (simp only:)
  qed
  have rwv: "rw = (if width x - 1 \<le> int sh then 2 else width x + E - int sh)"
    using shifted(1) E unfolding rw_def round_result_t_def ish by auto
  have rbv: "rb = sig_bits (rw + int sh)"
    using shifted(1) unfolding rb_def rw_def round_sig_bits_def ish by simp
  have ok: "sh < rb"
    using shifted(3) unfolding rb_def [symmetric] shift_ok_def ish [symmetric] by simp
  have r: "in_range rw (to_signed rb raw div 2 ^ sh)"
    by (rule shifted_in_range [OF w shpos E rwv rbv ok b])
  have rwb: "1 \<le> rw" "rw \<le> 64"
    using rwv w E shpos by (auto split: if_splits)
  have "significand y = to_signed (sig_bits rw) (to_signed rb raw div 2 ^ sh)"
    unfolding shifted(4) rw_def sh_def s' rb_def by simp
  also have "\<dots> = to_signed rb raw div 2 ^ sh"
    by (rule to_signed_in_range [OF rwb r])
  finally have "in_range rw (significand y)" using r by simp
  moreover have "width y = rw" unfolding shifted(4) rw_def by simp
  ultimately show ?thesis by simp
  qed
qed


lemma round_setup:
  assumes leg: "legal x" and lt: "place x < lsb_place"
  shows "- (2 ^ nat (width x - 1) - 1) \<le> significand x"
    and "significand x \<le> 2 ^ nat (width x - 1) - 1"
    and "width x - 1 \<le> lsb_place - place x
      \<Longrightarrow> (2::int) ^ nat (width x - 1) \<le> 2 ^ nat (lsb_place - place x)"
    and "\<not> width x - 1 \<le> lsb_place - place x
      \<Longrightarrow> 2 * (2::int) ^ nat (lsb_place - place x) \<le> 2 ^ nat (width x - 1)"
    and "(2::int) ^ nat (width x - 1 + 1) = 2 * 2 ^ nat (width x - 1)"
    and "(0::int) < 2 ^ nat (lsb_place - place x)"
proof -
  have w: "2 \<le> width x" using leg valid_type_width by (auto simp: legal_def)
  show "- (2 ^ nat (width x - 1) - 1) \<le> significand x"
      "significand x \<le> 2 ^ nat (width x - 1) - 1"
    using leg by (simp_all add: legal_def in_range_def)
  show "(2::int) ^ nat (width x - 1) \<le> 2 ^ nat (lsb_place - place x)"
    if "width x - 1 \<le> lsb_place - place x"
    using that by (intro power_increasing) simp_all
  show "2 * (2::int) ^ nat (lsb_place - place x) \<le> 2 ^ nat (width x - 1)"
    if "\<not> width x - 1 \<le> lsb_place - place x"
  proof -
    have "Suc (nat (lsb_place - place x)) \<le> nat (width x - 1)" using that lt by simp
    then have "(2::int) ^ Suc (nat (lsb_place - place x)) \<le> 2 ^ nat (width x - 1)"
      by (rule power_increasing) simp
    then show ?thesis by simp
  qed
  have "nat (width x - 1 + 1) = Suc (nat (width x - 1))" using w by simp
  then show "(2::int) ^ nat (width x - 1 + 1) = 2 * 2 ^ nat (width x - 1)" by simp
  show "(0::int) < 2 ^ nat (lsb_place - place x)" by simp
qed

lemma bias_bound:
  assumes leg: "legal x" and lt: "place x < lsb_place"
    and c: "(0 \<le> c \<and> c \<le> 2 ^ nat (lsb_place - place x))
         \<or> (\<exists>H. 2 ^ nat (width x - 1) \<le> H \<and> 2 ^ nat (lsb_place - place x) = 2 * H
                \<and> - H - 1 \<le> c \<and> c \<le> - H)"
  shows "if width x - 1 \<le> lsb_place - place x
         then - (2 ^ nat (lsb_place - place x)) \<le> significand x + c
              \<and> significand x + c < 2 * 2 ^ nat (lsb_place - place x)
         else - (2 ^ nat (width x - 1 + 1)) + 2 ^ nat (lsb_place - place x) \<le> significand x + c
              \<and> significand x + c < 2 ^ nat (width x - 1 + 1)"
proof (cases "width x - 1 \<le> lsb_place - place x")
  case True
  note rs = round_setup [OF leg lt]
  note q = rs(3) [OF True]
  from c have "- (2 ^ nat (lsb_place - place x)) \<le> significand x + c
              \<and> significand x + c < 2 * 2 ^ nat (lsb_place - place x)"
  proof
    assume "0 \<le> c \<and> c \<le> 2 ^ nat (lsb_place - place x)"
    then show ?thesis using rs(1,2,6) q by linarith
  next
    assume "\<exists>H. 2 ^ nat (width x - 1) \<le> H \<and> 2 ^ nat (lsb_place - place x) = 2 * H
                \<and> - H - 1 \<le> c \<and> c \<le> - H"
    then obtain H where "2 ^ nat (width x - 1) \<le> H" "2 ^ nat (lsb_place - place x) = 2 * H"
      "- H - 1 \<le> c" "c \<le> - H" by blast
    then show ?thesis using rs(1,2,6) by linarith
  qed
  with True show ?thesis by simp
next
  case False
  note rs = round_setup [OF leg lt]
  note q = rs(4) [OF False]
  from c have "- (2 * 2 ^ nat (width x - 1)) + 2 ^ nat (lsb_place - place x) \<le> significand x + c
              \<and> significand x + c < 2 * 2 ^ nat (width x - 1)"
  proof
    assume "0 \<le> c \<and> c \<le> 2 ^ nat (lsb_place - place x)"
    then show ?thesis using rs(1,2,6) q by linarith
  next
    assume "\<exists>H. 2 ^ nat (width x - 1) \<le> H \<and> 2 ^ nat (lsb_place - place x) = 2 * H
                \<and> - H - 1 \<le> c \<and> c \<le> - H"
    then obtain H where "2 ^ nat (width x - 1) \<le> H" "2 ^ nat (lsb_place - place x) = 2 * H"
      "- H - 1 \<le> c" "c \<le> - H" by blast
    then show ?thesis using rs(1,2,6) q by linarith
  qed
  with False show ?thesis unfolding rs(5) by simp
qed

lemma MAX_SIGNIFICAND_VALUE_shift:
  assumes "MAX_SIGNIFICAND_VALUE_ok n"
  shows "MAX_SIGNIFICAND_VALUE n = 2 ^ nat (n - 1) - 1"
  using assms by (intro MAX_SIGNIFICAND_VALUE_eq) (simp_all add: MAX_SIGNIFICAND_VALUE_ok_iff)

lemma floor_in_range:
  assumes leg: "legal x" and near: "lsb_place - place x < 64"
    and res: "floor_fp lsb_place x = Inr y"
  shows "in_range (width y) (significand y)"
proof (rule round_common_in_range [OF leg _ res [unfolded floor_fp_def] near])
  show "(1::int) = 0 \<or> (1::int) = 1" by simp
next
  fix s'
  assume lt: "place x < lsb_place" and f: "Inr (significand x) = (Inr s' :: error + int)"
  have "s' = to_signed (round_sig_bits (width x) (place x) 1 lsb_place) (significand x + 0)"
    using f round_arg_unchanged [OF leg lt, of 1] by simp
  moreover note bias_bound [OF leg lt, of 0]
  ultimately show "\<exists>raw. s' = to_signed (round_sig_bits (width x) (place x) 1 lsb_place) raw
      \<and> (if width x - 1 \<le> lsb_place - place x
           then - (2 ^ nat (lsb_place - place x)) \<le> raw
                \<and> raw < 2 * 2 ^ nat (lsb_place - place x)
           else - (2 ^ nat (width x - 1 + 1)) + 2 ^ nat (lsb_place - place x) \<le> raw
                \<and> raw < 2 ^ nat (width x - 1 + 1))"
    by (intro exI [of _ "significand x + 0"]) simp
qed

lemma ceil_in_range:
  assumes leg: "legal x" and near: "lsb_place - place x < 64"
    and res: "ceil_fp lsb_place x = Inr y"
  shows "in_range (width y) (significand y)"
proof (rule round_common_in_range [OF leg _ res [unfolded ceil_fp_def] near])
  show "(1::int) = 0 \<or> (1::int) = 1" by simp
next
  fix s'
  let ?rb = "round_sig_bits (width x) (place x) 1 lsb_place"
  let ?c = "(2::int) ^ nat (lsb_place - place x) - 1"
  assume lt: "place x < lsb_place"
    and f: "(if lsb_place \<le> place x then Inr 0
         else if \<not> MAX_SIGNIFICAND_VALUE_ok (1 + lsb_place - place x) then Inl Ill_Formed
         else let FRAC_MASK = MAX_SIGNIFICAND_VALUE (1 + lsb_place - place x)
              in Inr (to_signed ?rb (significand x + FRAC_MASK))) = Inr s'"
  have ok: "MAX_SIGNIFICAND_VALUE_ok (1 + lsb_place - place x)"
    using f lt by (simp split: if_splits)
  have "s' = to_signed ?rb (significand x + ?c)"
    using f lt ok by (simp add: MAX_SIGNIFICAND_VALUE_shift [OF ok] Let_def)
  moreover have "0 \<le> ?c \<and> ?c \<le> 2 ^ nat (lsb_place - place x)" by simp
  then have "if width x - 1 \<le> lsb_place - place x
         then - (2 ^ nat (lsb_place - place x)) \<le> significand x + ?c
              \<and> significand x + ?c < 2 * 2 ^ nat (lsb_place - place x)
         else - (2 ^ nat (width x - 1 + 1)) + 2 ^ nat (lsb_place - place x) \<le> significand x + ?c
              \<and> significand x + ?c < 2 ^ nat (width x - 1 + 1)"
    by (intro bias_bound [OF leg lt] disjI1)
  ultimately show "\<exists>raw. s' = to_signed ?rb raw
      \<and> (if width x - 1 \<le> lsb_place - place x
           then - (2 ^ nat (lsb_place - place x)) \<le> raw
                \<and> raw < 2 * 2 ^ nat (lsb_place - place x)
           else - (2 ^ nat (width x - 1 + 1)) + 2 ^ nat (lsb_place - place x) \<le> raw
                \<and> raw < 2 ^ nat (width x - 1 + 1))"
    by (intro exI [of _ "significand x + ?c"] conjI)
qed


lemma trunc_in_range:
  assumes leg: "legal x" and near: "lsb_place - place x < 64"
    and res: "trunc_fp lsb_place x = Inr y"
  shows "in_range (width y) (significand y)"
proof (rule round_common_in_range [OF leg _ res [unfolded trunc_fp_def] near])
  show "(0::int) = 0 \<or> (0::int) = 1" by simp
next
  fix s'
  let ?rb = "round_sig_bits (width x) (place x) 0 lsb_place"
  let ?c = "(2::int) ^ nat (lsb_place - place x) - 1"
  assume lt: "place x < lsb_place"
    and f: "(if lsb_place \<le> place x then Inr 0
         else if \<not> MAX_SIGNIFICAND_VALUE_ok (1 + lsb_place - place x) then Inl Ill_Formed
         else if 0 \<le> significand x then Inr (significand x)
         else let FRAC_MASK = MAX_SIGNIFICAND_VALUE (1 + lsb_place - place x)
              in Inr (to_signed ?rb (significand x + FRAC_MASK))) = Inr s'"
  have ok: "MAX_SIGNIFICAND_VALUE_ok (1 + lsb_place - place x)"
    using f lt by (simp split: if_splits)
  note rs = round_setup [OF leg lt]
  have m0: "nat (width x - 1 + 0) = nat (width x - 1)" by simp
  show "\<exists>raw. s' = to_signed ?rb raw
      \<and> (if width x - 1 \<le> lsb_place - place x
           then - (2 ^ nat (lsb_place - place x)) \<le> raw
                \<and> raw < 2 * 2 ^ nat (lsb_place - place x)
           else - (2 ^ nat (width x - 1 + 0)) + 2 ^ nat (lsb_place - place x) \<le> raw
                \<and> raw < 2 ^ nat (width x - 1 + 0))"
  proof (cases "0 \<le> significand x")
    case True
    then have "s' = to_signed ?rb (significand x)"
      using f lt ok round_arg_unchanged [OF leg lt, of 0] by simp
    moreover have "if width x - 1 \<le> lsb_place - place x
           then - (2 ^ nat (lsb_place - place x)) \<le> significand x
                \<and> significand x < 2 * 2 ^ nat (lsb_place - place x)
           else - (2 ^ nat (width x - 1 + 0)) + 2 ^ nat (lsb_place - place x) \<le> significand x
                \<and> significand x < 2 ^ nat (width x - 1 + 0)"
    proof (cases "width x - 1 \<le> lsb_place - place x")
      case B: True
      have "- (2 ^ nat (lsb_place - place x)) \<le> significand x
                \<and> significand x < 2 * 2 ^ nat (lsb_place - place x)"
        using rs(1,2,6) rs(3) [OF B] by linarith
      with B show ?thesis by simp
    next
      case A: False
      have "- (2 ^ nat (width x - 1)) + 2 ^ nat (lsb_place - place x) \<le> significand x
                \<and> significand x < 2 ^ nat (width x - 1)"
        using True rs(1,2,6) rs(4) [OF A] by linarith
      with A show ?thesis unfolding m0 by simp
    qed
    ultimately show ?thesis by (intro exI [of _ "significand x"] conjI)
  next
    case False
    then have "s' = to_signed ?rb (significand x + ?c)"
      using f lt ok by (simp add: MAX_SIGNIFICAND_VALUE_shift [OF ok] Let_def)
    moreover have "if width x - 1 \<le> lsb_place - place x
           then - (2 ^ nat (lsb_place - place x)) \<le> significand x + ?c
                \<and> significand x + ?c < 2 * 2 ^ nat (lsb_place - place x)
           else - (2 ^ nat (width x - 1 + 0)) + 2 ^ nat (lsb_place - place x) \<le> significand x + ?c
                \<and> significand x + ?c < 2 ^ nat (width x - 1 + 0)"
    proof (cases "width x - 1 \<le> lsb_place - place x")
      case B: True
      have "- (2 ^ nat (lsb_place - place x)) \<le> significand x + ?c
                \<and> significand x + ?c < 2 * 2 ^ nat (lsb_place - place x)"
        using False rs(1,2,6) rs(3) [OF B] by linarith
      with B show ?thesis by simp
    next
      case A: False
      have "- (2 ^ nat (width x - 1)) + 2 ^ nat (lsb_place - place x) \<le> significand x + ?c
                \<and> significand x + ?c < 2 ^ nat (width x - 1)"
        using \<open>\<not> 0 \<le> significand x\<close> rs(1,2,6) rs(4) [OF A] by linarith
      with A show ?thesis unfolding m0 by simp
    qed
    ultimately show ?thesis by (intro exI [of _ "significand x + ?c"] conjI)
  qed
qed

lemma half_pow:
  assumes "place x < lsb_place"
  shows "(2::int) ^ nat (lsb_place - place x) = 2 * 2 ^ nat (lsb_place - place x - 1)"
proof -
  have "nat (lsb_place - place x) = Suc (nat (lsb_place - place x - 1))" using assms by simp
  then show ?thesis by simp
qed

lemma round_half_down_in_range:
  assumes leg: "legal x" and near: "lsb_place - place x < 64"
    and res: "round_half_down lsb_place x = Inr y"
  shows "in_range (width y) (significand y)"
proof (rule round_common_in_range [OF leg _ res [unfolded round_half_down_def] near])
  show "(1::int) = 0 \<or> (1::int) = 1" by simp
next
  fix s'
  let ?rb = "round_sig_bits (width x) (place x) 1 lsb_place"
  let ?c = "(2::int) ^ nat (lsb_place - place x - 1) - 1"
  assume lt: "place x < lsb_place"
    and f: "(let rb = ?rb
         in if lsb_place \<le> place x then Inr 0
            else if \<not> MAX_SIGNIFICAND_VALUE_ok (lsb_place - place x) then Inl Ill_Formed
            else let HALF_MINUS_1 = MAX_SIGNIFICAND_VALUE (lsb_place - place x)
                 in Inr (to_signed rb (significand x + HALF_MINUS_1))) = Inr s'"
  have ok: "MAX_SIGNIFICAND_VALUE_ok (lsb_place - place x)"
    using f lt by (simp add: Let_def split: if_splits)
  have "s' = to_signed ?rb (significand x + ?c)"
    using f lt ok by (simp add: MAX_SIGNIFICAND_VALUE_shift [OF ok] Let_def)
  moreover have "(1::int) \<le> 2 ^ nat (lsb_place - place x - 1)" by simp
  then have "0 \<le> ?c \<and> ?c \<le> 2 ^ nat (lsb_place - place x)"
    unfolding half_pow [OF lt] by linarith
  then have "if width x - 1 \<le> lsb_place - place x
         then - (2 ^ nat (lsb_place - place x)) \<le> significand x + ?c
              \<and> significand x + ?c < 2 * 2 ^ nat (lsb_place - place x)
         else - (2 ^ nat (width x - 1 + 1)) + 2 ^ nat (lsb_place - place x) \<le> significand x + ?c
              \<and> significand x + ?c < 2 ^ nat (width x - 1 + 1)"
    by (intro bias_bound [OF leg lt] disjI1)
  ultimately show "\<exists>raw. s' = to_signed ?rb raw
      \<and> (if width x - 1 \<le> lsb_place - place x
           then - (2 ^ nat (lsb_place - place x)) \<le> raw
                \<and> raw < 2 * 2 ^ nat (lsb_place - place x)
           else - (2 ^ nat (width x - 1 + 1)) + 2 ^ nat (lsb_place - place x) \<le> raw
                \<and> raw < 2 ^ nat (width x - 1 + 1))"
    by (intro exI [of _ "significand x + ?c"] conjI)
qed

lemma round_half_to_even_in_range:
  assumes leg: "legal x" and near: "lsb_place - place x < 64"
    and res: "round_half_to_even lsb_place x = Inr y"
  shows "in_range (width y) (significand y)"
proof (rule round_common_in_range [OF leg _ res [unfolded round_half_to_even_def] near])
  show "(1::int) = 0 \<or> (1::int) = 1" by simp
next
  fix s'
  let ?rb = "round_sig_bits (width x) (place x) 1 lsb_place"
  let ?l = "if significand x
                 AND to_signed ?rb (push_bit (shift_count ?rb (lsb_place - place x)) 1) \<noteq> 0
            then 1 else (0::int)"
  let ?c = "(2::int) ^ nat (lsb_place - place x - 1) - 1 + ?l"
  assume lt: "place x < lsb_place"
    and f: "(let rb = ?rb
         in if lsb_place \<le> place x then Inr 0
            else if \<not> MAX_SIGNIFICAND_VALUE_ok (lsb_place - place x)
            then Inl Ill_Formed
            else let HALF_MINUS_1 = MAX_SIGNIFICAND_VALUE (lsb_place - place x);
                     result_lsb =
                       (if significand x
                            AND to_signed rb
                                  (push_bit (shift_count rb (lsb_place - place x)) 1) \<noteq> 0
                        then 1 else 0)
                 in Inr (to_signed rb (significand x + HALF_MINUS_1 + result_lsb))) = Inr s'"
  have ok: "MAX_SIGNIFICAND_VALUE_ok (lsb_place - place x)"
    using f lt by (simp add: Let_def split: if_splits)
  have "s' = to_signed ?rb (significand x + MAX_SIGNIFICAND_VALUE (lsb_place - place x) + ?l)"
    using f lt ok by (simp add: Let_def split: if_splits)
  then have sv: "s' = to_signed ?rb (significand x + ?c)"
    unfolding MAX_SIGNIFICAND_VALUE_shift [OF ok] by (simp only: add.assoc)
  have "(1::int) \<le> 2 ^ nat (lsb_place - place x - 1)" by simp
  moreover have "0 \<le> ?l \<and> ?l \<le> 1" by simp
  ultimately have "0 \<le> ?c \<and> ?c \<le> 2 ^ nat (lsb_place - place x)"
    unfolding half_pow [OF lt] by linarith
  then have bv: "if width x - 1 \<le> lsb_place - place x
         then - (2 ^ nat (lsb_place - place x)) \<le> significand x + ?c
              \<and> significand x + ?c < 2 * 2 ^ nat (lsb_place - place x)
         else - (2 ^ nat (width x - 1 + 1)) + 2 ^ nat (lsb_place - place x) \<le> significand x + ?c
              \<and> significand x + ?c < 2 ^ nat (width x - 1 + 1)"
    by (intro bias_bound [OF leg lt] disjI1)
  from sv bv show "\<exists>raw. s' = to_signed ?rb raw
      \<and> (if width x - 1 \<le> lsb_place - place x
           then - (2 ^ nat (lsb_place - place x)) \<le> raw
                \<and> raw < 2 * 2 ^ nat (lsb_place - place x)
           else - (2 ^ nat (width x - 1 + 1)) + 2 ^ nat (lsb_place - place x) \<le> raw
                \<and> raw < 2 ^ nat (width x - 1 + 1))"
    by (intro exI [of _ "significand x + ?c"] conjI)
qed


text \<open>
  \<open>HALF\<close> is computed in \<open>significand_t<WIDTH>\<close>.  It is the power of two it is meant to be,
  unless the shift reaches the sign bit of that type; then it is the negative of that power, and
  the whole value lies below the target place.
\<close>

lemma to_signed_sign_bit:
  assumes "0 < b"
  shows "to_signed b (2 ^ (b - 1)) = - (2 ^ (b - 1))"
proof -
  have "take_bit (Suc (b - 1)) ((2::int) ^ (b - 1) + 2 ^ (b - 1)) = 0"
    by (simp add: take_bit_eq_mod)
  then show ?thesis
    unfolding to_signed_def signed_take_bit_eq_take_bit_shift by (simp only: diff_0)
qed

lemma HALF_value:
  assumes leg: "legal x" and lt: "place x < lsb_place"
    and ok: "shift_ok (sig_bits (width x)) (lsb_place - place x - 1)"
  shows "to_signed (sig_bits (width x)) (push_bit (nat (lsb_place - place x - 1)) 1)
           = 2 ^ nat (lsb_place - place x - 1)
       \<or> (to_signed (sig_bits (width x)) (push_bit (nat (lsb_place - place x - 1)) 1)
           = - (2 ^ nat (lsb_place - place x - 1))
          \<and> (2::int) ^ nat (width x - 1) \<le> 2 ^ nat (lsb_place - place x - 1))"
proof -
  define n where "n = nat (lsb_place - place x - 1)"
  define b where "b = sig_bits (width x)"
  have w: "2 \<le> width x" "width x \<le> 54"
    using leg valid_type_width by (auto simp: legal_def)
  have nb: "n < b" using ok lt by (simp add: shift_ok_def n_def b_def)
  have bpos: "0 < b" using nb by simp
  have st: "(2::int) ^ nat (width x - 1) \<le> 2 ^ (b - 1)"
    unfolding b_def using w by (intro storage_holds_width) simp_all
  show ?thesis
    unfolding n_def [symmetric] b_def [symmetric] push_bit_eq_mult mult_1
  proof (cases "n < b - 1")
    case True
    then have "Suc n \<le> b - 1" by simp
    then have "(2::int) ^ Suc n \<le> 2 ^ (b - 1)" by (rule power_increasing) simp
    then have p: "2 * (2::int) ^ n \<le> 2 ^ (b - 1)" by simp
    have pos: "(0::int) < 2 ^ n" by simp
    have "to_signed b (2 ^ n) = 2 ^ n"
      by (rule to_signed_id) (use bpos p pos in linarith)+
    then show "to_signed b (2 ^ n) = 2 ^ n
       \<or> (to_signed b (2 ^ n) = - (2 ^ n) \<and> (2::int) ^ nat (width x - 1) \<le> 2 ^ n)"
      by (rule disjI1)
  next
    case False
    then have e: "n = b - 1" using nb by simp
    have "to_signed b (2 ^ n) = - (2 ^ n)"
      unfolding e by (rule to_signed_sign_bit [OF bpos])
    moreover have "(2::int) ^ nat (width x - 1) \<le> 2 ^ n" using st by (simp only: e)
    ultimately show "to_signed b (2 ^ n) = 2 ^ n
       \<or> (to_signed b (2 ^ n) = - (2 ^ n) \<and> (2::int) ^ nat (width x - 1) \<le> 2 ^ n)"
      by (intro disjI2 conjI)
  qed
qed

lemma HALF_bias:
  assumes leg: "legal x" and lt: "place x < lsb_place"
    and ok: "shift_ok (sig_bits (width x)) (lsb_place - place x - 1)"
    and d: "0 \<le> d \<and> d \<le> 1"
  defines "HALF \<equiv> to_signed (sig_bits (width x)) (push_bit (nat (lsb_place - place x - 1)) 1)"
  shows "if width x - 1 \<le> lsb_place - place x
         then - (2 ^ nat (lsb_place - place x)) \<le> significand x + (HALF - d)
              \<and> significand x + (HALF - d) < 2 * 2 ^ nat (lsb_place - place x)
         else - (2 ^ nat (width x - 1 + 1)) + 2 ^ nat (lsb_place - place x) \<le> significand x + (HALF - d)
              \<and> significand x + (HALF - d) < 2 ^ nat (width x - 1 + 1)"
proof (rule bias_bound [OF leg lt])
  have pos: "(1::int) \<le> 2 ^ nat (lsb_place - place x - 1)" by simp
  from HALF_value [OF leg lt ok, folded HALF_def]
  show "(0 \<le> HALF - d \<and> HALF - d \<le> 2 ^ nat (lsb_place - place x))
         \<or> (\<exists>H. 2 ^ nat (width x - 1) \<le> H \<and> 2 ^ nat (lsb_place - place x) = 2 * H
                \<and> - H - 1 \<le> HALF - d \<and> HALF - d \<le> - H)"
  proof
    assume "HALF = 2 ^ nat (lsb_place - place x - 1)"
    then have "0 \<le> HALF - d \<and> HALF - d \<le> 2 ^ nat (lsb_place - place x)"
      unfolding half_pow [OF lt] using d pos by linarith
    then show ?thesis by (rule disjI1)
  next
    assume a: "HALF = - (2 ^ nat (lsb_place - place x - 1))
          \<and> (2::int) ^ nat (width x - 1) \<le> 2 ^ nat (lsb_place - place x - 1)"
    show ?thesis
    proof (intro disjI2 exI [of _ "2 ^ nat (lsb_place - place x - 1)"] conjI)
      show "(2::int) ^ nat (width x - 1) \<le> 2 ^ nat (lsb_place - place x - 1)"
        using a by (rule conjunct2)
      show "(2::int) ^ nat (lsb_place - place x) = 2 * 2 ^ nat (lsb_place - place x - 1)"
        by (rule half_pow [OF lt])
      show "- (2 ^ nat (lsb_place - place x - 1)) - 1 \<le> HALF - d"
        using a d by linarith
      show "HALF - d \<le> - (2 ^ nat (lsb_place - place x - 1))"
        using a d by linarith
    qed
  qed
qed

lemma round_half_up_in_range:
  assumes leg: "legal x" and near: "lsb_place - place x < 64"
    and res: "round_half_up lsb_place x = Inr y"
  shows "in_range (width y) (significand y)"
proof (rule round_common_in_range [OF leg _ res [unfolded round_half_up_def] near])
  show "(1::int) = 0 \<or> (1::int) = 1" by simp
next
  fix s'
  let ?rb = "round_sig_bits (width x) (place x) 1 lsb_place"
  let ?HALF = "to_signed (sig_bits (width x)) (push_bit (nat (lsb_place - place x - 1)) 1)"
  assume lt: "place x < lsb_place"
    and f: "(let rb = ?rb
         in if lsb_place \<le> place x then Inr 0
            else if \<not> shift_ok (sig_bits (width x)) (lsb_place - place x - 1)
            then Inl Ill_Formed
            else let HALF = ?HALF in Inr (to_signed rb (significand x + HALF))) = Inr s'"
  have ok: "shift_ok (sig_bits (width x)) (lsb_place - place x - 1)"
    using f lt by (simp add: Let_def split: if_splits)
  have "s' = to_signed ?rb (significand x + ?HALF)"
    using f lt ok by (simp add: Let_def)
  then have sv: "s' = to_signed ?rb (significand x + (?HALF - 0))" by simp
  have bv: "if width x - 1 \<le> lsb_place - place x
         then - (2 ^ nat (lsb_place - place x)) \<le> significand x + (?HALF - 0)
              \<and> significand x + (?HALF - 0) < 2 * 2 ^ nat (lsb_place - place x)
         else - (2 ^ nat (width x - 1 + 1)) + 2 ^ nat (lsb_place - place x) \<le> significand x + (?HALF - 0)
              \<and> significand x + (?HALF - 0) < 2 ^ nat (width x - 1 + 1)"
    by (rule HALF_bias [OF leg lt ok]) simp
  from sv bv show "\<exists>raw. s' = to_signed ?rb raw
      \<and> (if width x - 1 \<le> lsb_place - place x
           then - (2 ^ nat (lsb_place - place x)) \<le> raw
                \<and> raw < 2 * 2 ^ nat (lsb_place - place x)
           else - (2 ^ nat (width x - 1 + 1)) + 2 ^ nat (lsb_place - place x) \<le> raw
                \<and> raw < 2 ^ nat (width x - 1 + 1))"
    by (intro exI [of _ "significand x + (?HALF - 0)"] conjI)
qed

lemma round_half_away_from_zero_in_range:
  assumes leg: "legal x" and near: "lsb_place - place x < 64"
    and res: "round_half_away_from_zero lsb_place x = Inr y"
  shows "in_range (width y) (significand y)"
proof (rule round_common_in_range [OF leg _ res [unfolded round_half_away_from_zero_def] near])
  show "(1::int) = 0 \<or> (1::int) = 1" by simp
next
  fix s'
  let ?rb = "round_sig_bits (width x) (place x) 1 lsb_place"
  let ?HALF = "to_signed (sig_bits (width x)) (push_bit (nat (lsb_place - place x - 1)) 1)"
  let ?d = "if significand x < 0 then 1 else (0::int)"
  assume lt: "place x < lsb_place"
    and f: "(let rb = ?rb
         in if lsb_place \<le> place x then Inr 0
            else if \<not> shift_ok (sig_bits (width x)) (lsb_place - place x - 1)
            then Inl Ill_Formed
            else let HALF = ?HALF; sign_bit = (if significand x < 0 then 1 else 0)
                 in Inr (to_signed rb (significand x + HALF - sign_bit))) = Inr s'"
  have ok: "shift_ok (sig_bits (width x)) (lsb_place - place x - 1)"
    using f lt by (simp add: Let_def split: if_splits)
  have "s' = to_signed ?rb (significand x + ?HALF - ?d)"
    using f lt ok by (simp add: Let_def)
  then have sv: "s' = to_signed ?rb (significand x + (?HALF - ?d))"
    by (simp only: add_diff_eq)
  have bv: "if width x - 1 \<le> lsb_place - place x
         then - (2 ^ nat (lsb_place - place x)) \<le> significand x + (?HALF - ?d)
              \<and> significand x + (?HALF - ?d) < 2 * 2 ^ nat (lsb_place - place x)
         else - (2 ^ nat (width x - 1 + 1)) + 2 ^ nat (lsb_place - place x) \<le> significand x + (?HALF - ?d)
              \<and> significand x + (?HALF - ?d) < 2 ^ nat (width x - 1 + 1)"
    by (rule HALF_bias [OF leg lt ok]) simp
  from sv bv show "\<exists>raw. s' = to_signed ?rb raw
      \<and> (if width x - 1 \<le> lsb_place - place x
           then - (2 ^ nat (lsb_place - place x)) \<le> raw
                \<and> raw < 2 * 2 ^ nat (lsb_place - place x)
           else - (2 ^ nat (width x - 1 + 1)) + 2 ^ nat (lsb_place - place x) \<le> raw
                \<and> raw < 2 ^ nat (width x - 1 + 1))"
    by (intro exI [of _ "significand x + (?HALF - ?d)"] conjI)
qed

lemma round_half_toward_zero_in_range:
  assumes leg: "legal x" and near: "lsb_place - place x < 64"
    and res: "round_half_toward_zero lsb_place x = Inr y"
  shows "in_range (width y) (significand y)"
proof (rule round_common_in_range [OF leg _ res [unfolded round_half_toward_zero_def] near])
  show "(1::int) = 0 \<or> (1::int) = 1" by simp
next
  fix s'
  let ?rb = "round_sig_bits (width x) (place x) 1 lsb_place"
  let ?HALF = "to_signed (sig_bits (width x)) (push_bit (nat (lsb_place - place x - 1)) 1)"
  let ?d = "(if significand x < 0 then 1 else (0::int)) XOR 1"
  assume lt: "place x < lsb_place"
    and f: "(let rb = ?rb
         in if lsb_place \<le> place x then Inr 0
            else if \<not> shift_ok (sig_bits (width x)) (lsb_place - place x - 1)
            then Inl Ill_Formed
            else let HALF = ?HALF; sign_bit = (if significand x < 0 then 1 else 0)
                 in Inr (to_signed rb (significand x + HALF - (sign_bit XOR 1)))) = Inr s'"
  have ok: "shift_ok (sig_bits (width x)) (lsb_place - place x - 1)"
    using f lt by (simp add: Let_def split: if_splits)
  have "s' = to_signed ?rb (significand x + ?HALF - ?d)"
    using f lt ok by (simp add: Let_def)
  then have sv: "s' = to_signed ?rb (significand x + (?HALF - ?d))"
    by (simp only: add_diff_eq)
  have d: "0 \<le> ?d \<and> ?d \<le> 1" by simp
  have bv: "if width x - 1 \<le> lsb_place - place x
         then - (2 ^ nat (lsb_place - place x)) \<le> significand x + (?HALF - ?d)
              \<and> significand x + (?HALF - ?d) < 2 * 2 ^ nat (lsb_place - place x)
         else - (2 ^ nat (width x - 1 + 1)) + 2 ^ nat (lsb_place - place x) \<le> significand x + (?HALF - ?d)
              \<and> significand x + (?HALF - ?d) < 2 ^ nat (width x - 1 + 1)"
    by (rule HALF_bias [OF leg lt ok d])
  from sv bv show "\<exists>raw. s' = to_signed ?rb raw
      \<and> (if width x - 1 \<le> lsb_place - place x
           then - (2 ^ nat (lsb_place - place x)) \<le> raw
                \<and> raw < 2 * 2 ^ nat (lsb_place - place x)
           else - (2 ^ nat (width x - 1 + 1)) + 2 ^ nat (lsb_place - place x) \<le> raw
                \<and> raw < 2 ^ nat (width x - 1 + 1))"
    by (intro exI [of _ "significand x + (?HALF - ?d)"] conjI)
qed


lemma clamp_significand_in_range:
  assumes "1 \<le> w" "w \<le> 64"
  shows "in_range w (clamp_significand w v)"
proof -
  have "(0::int) < 2 ^ nat (w - 1)" by simp
  then show ?thesis
    unfolding clamp_significand_def in_range_def MAX_SIGNIFICAND_VALUE_eq [OF assms]
    by (simp only: split: if_splits) linarith
qed

lemma legal_default: "valid_type w p \<Longrightarrow> legal (FixedPoint_zero w p)"
  by (simp add: legal_def FixedPoint_zero_def in_range_def)

lemma legal_copy:
  assumes "legal src" "valid_type w p" "narrower w p (width src) (place src)"
  shows "legal (FixedPoint_from w p src)"
  using FixedPoint_from_exact(2) [OF assms] assms(2) by (simp add: legal_def)

lemma legal_from_double:
  assumes "valid_type w p"
  shows "legal (FixedPoint_of_rounded w p r)"
proof -
  have "1 \<le> w" "w \<le> 64" using valid_type_width [OF assms] by simp_all
  then have "in_range w (to_significand w r)"
    unfolding to_significand_def by (rule clamp_in_range)
  then show ?thesis using assms by (simp add: legal_def FixedPoint_of_rounded_def)
qed

lemma legal_set_significand:
  assumes "legal x"
  shows "legal (set_significand v x)"
proof -
  have ty: "valid_type (width x) (place x)" using assms by (simp add: legal_def)
  have "1 \<le> width x" "width x \<le> 64" using valid_type_width [OF ty] by simp_all
  then have "in_range (width x) (clamp_significand (width x) v)"
    by (rule clamp_significand_in_range)
  then show ?thesis using ty by (simp add: legal_def set_significand_def)
qed

lemma legal_reduce_dynamic_range:
  assumes "valid_type dest_width (place x)"
  shows "legal (reduce_dynamic_range dest_width x)"
proof -
  have "1 \<le> dest_width" "dest_width \<le> 64" using valid_type_width [OF assms] by simp_all
  then have "in_range dest_width (clamp_significand dest_width (significand x))"
    by (rule clamp_significand_in_range)
  then show ?thesis using assms by (simp add: legal_def reduce_dynamic_range_def)
qed

lemma legal_operator_neg:
  assumes "legal x"
  shows "legal (operator_neg x)" and "significand (operator_neg x) = - significand x"
proof -
  have ty: "valid_type (width x) (place x)" and r: "in_range (width x) (significand x)"
    using assms by (simp_all add: legal_def)
  have w: "1 \<le> width x" "width x \<le> 64" using valid_type_width [OF ty] by simp_all
  have n: "in_range (width x) (- significand x)" using r by (rule in_range_neg)
  show e: "significand (operator_neg x) = - significand x"
    by (simp add: operator_neg_def to_signed_in_range [OF w n])
  show "legal (operator_neg x)"
    using ty n by (simp add: legal_def operator_neg_def to_signed_in_range [OF w n])
qed

lemma legal_exp2:
  assumes "legal x" "valid_type (width x) (place x + e)"
  shows "legal (exp2 e x)"
  using assms by (simp add: legal_def exp2_def)

lemma legal_rounded:
  assumes "in_range (width y) (significand y)" "valid_type (width y) (place y)"
  shows "legal y"
  using assms by (simp add: legal_def)

lemma reachable_legal: "reachable 64 x \<Longrightarrow> legal x"
proof (induction rule: reachable.induct)
  case (default_constructed w p)
  then show ?case by (rule legal_default)
next
  case (narrowing_copy src w p)
  then show ?case by (intro legal_copy)
next
  case (from_double w p r)
  then show ?case by (rule legal_from_double)
next
  case (by_set_significand x v)
  then show ?case by (intro legal_set_significand)
next
  case (by_reduce_dynamic_range x dest_width)
  then show ?case by (intro legal_reduce_dynamic_range)
next
  case (by_operator_neg x)
  then show ?case by (intro legal_operator_neg(1))
next
  case (by_operator_plus x op2)
  then show ?case by (intro operator_plus_minus_exact(3))
next
  case (by_operator_minus x op2)
  then show ?case by (intro operator_plus_minus_exact(4))
next
  case (by_operator_times x op2)
  then show ?case by (intro operator_times_exact(2))
next
  case (by_exp2 x e)
  then show ?case by (intro legal_exp2)
next
  case (by_ceil x lsb_place y)
  from by_ceil.IH by_ceil.hyps(2,3) have "in_range (width y) (significand y)"
    by (rule ceil_in_range)
  then show ?case using by_ceil.hyps(4) by (rule legal_rounded)
next
  case (by_floor x lsb_place y)
  from by_floor.IH by_floor.hyps(2,3) have "in_range (width y) (significand y)"
    by (rule floor_in_range)
  then show ?case using by_floor.hyps(4) by (rule legal_rounded)
next
  case (by_trunc x lsb_place y)
  from by_trunc.IH by_trunc.hyps(2,3) have "in_range (width y) (significand y)"
    by (rule trunc_in_range)
  then show ?case using by_trunc.hyps(4) by (rule legal_rounded)
next
  case (by_round_half_to_even x lsb_place y)
  from by_round_half_to_even.IH by_round_half_to_even.hyps(2,3) have "in_range (width y) (significand y)"
    by (rule round_half_to_even_in_range)
  then show ?case using by_round_half_to_even.hyps(4) by (rule legal_rounded)
next
  case (by_round_half_away_from_zero x lsb_place y)
  from by_round_half_away_from_zero.IH by_round_half_away_from_zero.hyps(2,3) have "in_range (width y) (significand y)"
    by (rule round_half_away_from_zero_in_range)
  then show ?case using by_round_half_away_from_zero.hyps(4) by (rule legal_rounded)
next
  case (by_round_half_toward_zero x lsb_place y)
  from by_round_half_toward_zero.IH by_round_half_toward_zero.hyps(2,3) have "in_range (width y) (significand y)"
    by (rule round_half_toward_zero_in_range)
  then show ?case using by_round_half_toward_zero.hyps(4) by (rule legal_rounded)
next
  case (by_round_half_up x lsb_place y)
  from by_round_half_up.IH by_round_half_up.hyps(2,3) have "in_range (width y) (significand y)"
    by (rule round_half_up_in_range)
  then show ?case using by_round_half_up.hyps(4) by (rule legal_rounded)
next
  case (by_round_half_down x lsb_place y)
  from by_round_half_down.IH by_round_half_down.hyps(2,3) have "in_range (width y) (significand y)"
    by (rule round_half_down_in_range)
  then show ?case using by_round_half_down.hyps(4) by (rule legal_rounded)
qed

text \<open>
  Every call of a rounding function compiles and returns when the target place is at most 32
  places above the source place: none of its constants is rejected, and every shift has a
  meaning in C++.
\<close>

lemma round_common_defined:
  assumes "place x < lsb_place"
    and "shift_ok (round_sig_bits (width x) (place x) extra_width lsb_place)
           (lsb_place - place x)"
    and "\<And>s. \<exists>s'. func s = Inr s'"
  shows "\<exists>y. round_common extra_width lsb_place func x = Inr y"
proof -
  let ?rb = "round_sig_bits (width x) (place x) extra_width lsb_place"
  from assms(3) obtain s' where f: "func (to_signed ?rb (significand x)) = Inr s'" by blast
  note e = round_common_shift [where func = func and x = x and lsb_place = lsb_place
      and extra_width = extra_width and s' = s', OF assms(1) f assms(2)]
  then show ?thesis by (rule exI)
qed

lemma round_shifts_defined:
  assumes leg: "legal x" and lt: "place x < lsb_place" and le: "lsb_place - place x \<le> 32"
    and E: "E = 0 \<or> E = 1"
  shows "shift_ok (round_sig_bits (width x) (place x) E lsb_place) (lsb_place - place x)"
    and "MAX_SIGNIFICAND_VALUE_ok (1 + lsb_place - place x)"
    and "MAX_SIGNIFICAND_VALUE_ok (lsb_place - place x)"
    and "shift_ok (sig_bits (width x)) (lsb_place - place x - 1)"
proof -
  have w: "2 \<le> width x" "width x \<le> 54"
    using leg valid_type_width by (auto simp: legal_def)
  show "shift_ok (round_sig_bits (width x) (place x) E lsb_place) (lsb_place - place x)"
    using lt le w E
    unfolding shift_ok_def round_sig_bits_def round_result_t_def sig_bits_def
    by (auto split: if_splits)
  show "MAX_SIGNIFICAND_VALUE_ok (1 + lsb_place - place x)"
    using lt le by (simp add: MAX_SIGNIFICAND_VALUE_ok_iff)
  show "MAX_SIGNIFICAND_VALUE_ok (lsb_place - place x)"
    using lt le by (simp add: MAX_SIGNIFICAND_VALUE_ok_iff)
  show "shift_ok (sig_bits (width x)) (lsb_place - place x - 1)"
    using lt le by (simp add: shift_ok_def sig_bits_def)
qed

lemma rounding_defined:
  assumes leg: "legal x" and le: "lsb_place - place x \<le> 32"
  shows "(\<exists>y. ceil_fp lsb_place x = Inr y) \<and> (\<exists>y. floor_fp lsb_place x = Inr y)
    \<and> (\<exists>y. trunc_fp lsb_place x = Inr y)
    \<and> (\<exists>y. round_half_to_even lsb_place x = Inr y)
    \<and> (\<exists>y. round_half_away_from_zero lsb_place x = Inr y)
    \<and> (\<exists>y. round_half_toward_zero lsb_place x = Inr y)
    \<and> (\<exists>y. round_half_up lsb_place x = Inr y)
    \<and> (\<exists>y. round_half_down lsb_place x = Inr y)"
proof (cases "lsb_place \<le> place x")
  case True
  then show ?thesis unfolding ceil_fp_def floor_fp_def trunc_fp_def round_half_to_even_def round_half_away_from_zero_def round_half_toward_zero_def round_half_up_def round_half_down_def by (simp add: round_common_id)
next
  case False
  then have lt: "place x < lsb_place" by simp
  note d1 = round_shifts_defined [OF leg lt le, of 1]
  note d0 = round_shifts_defined [OF leg lt le, of 0]
  show ?thesis
    unfolding ceil_fp_def floor_fp_def trunc_fp_def round_half_to_even_def
      round_half_away_from_zero_def round_half_toward_zero_def round_half_up_def
      round_half_down_def
    by (intro conjI round_common_defined lt d1(1) d0(1))
       (use False d1 in \<open>simp_all add: Let_def\<close>)
qed

text \<open>
  As long as every rounding function is called with \<open>LSB_PLACE - PLACE < 64\<close>, every instance
  that can be built through the public interface (default construction, the narrowing copy,
  construction from a double, \<open>set_significand\<close>, \<open>reduce_dynamic_range\<close>, unary minus,
  \<open>operator+\<close>, \<open>operator-\<close>, \<open>operator*\<close>, \<open>exp2\<close> and the eight rounding functions) has its
  significand in [-(2^(width-1)-1), 2^(width-1)-1], and none holds the two's complement
  minimum -2^(width-1).
\<close>

lemma significand_in_range_below_64:
  assumes "reachable 64 x"
  shows "- (2 ^ nat (width x - 1) - 1) \<le> significand x
    \<and> significand x \<le> 2 ^ nat (width x - 1) - 1
    \<and> significand x \<noteq> - (2 ^ nat (width x - 1))"
proof -
  have "in_range (width x) (significand x)"
    using reachable_legal [OF assms] by (simp add: legal_def)
  then show ?thesis unfolding in_range_def by linarith
qed

lemma significand_in_range_example:
  "reachable 64 (operator_neg (FixedPoint_of_rounded 8 0 (- 200)))
   \<and> significand (operator_neg (FixedPoint_of_rounded 8 0 (- 200))) = 127"
proof -
  have r: "reachable 64 (operator_neg (FixedPoint_of_rounded 8 0 (- 200)))"
    by (intro reachable.by_operator_neg reachable.from_double valid_type_8_0)
  have v: "significand (operator_neg (FixedPoint_of_rounded 8 0 (- 200))) = 127"
    by code_simp
  show ?thesis by (intro conjI r v)
qed

text \<open>
  C4.  Every instance that can be built through the public interface, each rounding function
  included, is to have its significand in [-(2^(width-1)-1), 2^(width-1)-1] and never the
  two's complement minimum -2^(width-1).  \<open>round_result_t\<close> is documented as a type that "can
  contain the result that rounded at the place LSB_PLACE", but no static assertion bounds
  \<open>LSB_PLACE - PLACE\<close>, the count of the right shift in \<open>round_common\<close>.  \<open>FixedPoint<8, -70>\<close>
  constructed from the double -127 * 2^-70 holds the significand -127.  Its \<open>floor<0>()\<close>
  passes every static assertion, shifts a value of 64 bits by 70 places and returns an
  instance of \<open>FixedPoint<2, 0>\<close> with the significand -2, the two's complement minimum of 2
  bits, outside of [-1, 1].
\<close>

theorem floor_by_70_places_leaves_range:
  "valid_type 8 (- 70)
   \<and> FixedPoint_of_rounded 8 (- 70) (- 127) = \<lparr>width = 8, place = - 70, significand = - 127\<rparr>
   \<and> legal \<lparr>width = 8, place = - 70, significand = - 127\<rparr>
   \<and> floor_fp 0 \<lparr>width = 8, place = - 70, significand = - 127\<rparr>
       = Inr \<lparr>width = 2, place = 0, significand = - 2\<rparr>
   \<and> valid_type 2 0
   \<and> reachable 71 \<lparr>width = 2, place = 0, significand = - 2\<rparr>
   \<and> \<not> in_range 2 (- 2)
   \<and> (- 2::int) = - (2 ^ nat (2 - 1))"
proof -
  let ?x = "\<lparr>width = 8, place = - 70, significand = - 127\<rparr>"
  let ?y = "\<lparr>width = 2, place = 0, significand = - 2\<rparr>"
  have t8: "valid_type 8 (- 70)"
    by (simp add: valid_type_def MIN_BIT_WIDTH_def MAX_BIT_WIDTH_def MIN_LSB_PLACE_def
        MAX_MSB_PLACE_def)
  have t2: "valid_type 2 0"
    by (simp add: valid_type_def MIN_BIT_WIDTH_def MAX_BIT_WIDTH_def MIN_LSB_PLACE_def
        MAX_MSB_PLACE_def)
  have c: "FixedPoint_of_rounded 8 (- 70) (- 127) = ?x" by code_simp
  have l: "legal ?x" using t8 by (simp add: legal_def in_range_def)
  have f: "floor_fp 0 ?x = Inr ?y" by code_simp
  have "reachable 71 (FixedPoint_of_rounded 8 (- 70) (- 127))"
    using t8 by (rule reachable.from_double)
  then have rx: "reachable 71 ?x" by (simp only: c)
  have r: "reachable 71 ?y"
    by (rule reachable.by_floor [OF rx _ f]) (simp_all add: t2)
  have n: "\<not> in_range 2 (- 2)" by (simp add: in_range_def)
  have m: "(- 2::int) = - (2 ^ nat (2 - 1))" by simp
  show ?thesis by (intro conjI t8 c l f t2 r n m)
qed

end
